theory Spec2Isabelle
  imports Main "HOL-Library.Word"
begin

unbundle bit_operations_syntax

section \<open>Bytes, buffers and the file store\<close>

text \<open>
  A Python \<open>bytes\<close>/\<open>bytearray\<close> value is a list of 8-bit words. The file system is a
  map from paths to whole-file contents: both scripts read a file in one piece and write
  it back in one piece.
\<close>

type_synonym byte = "8 word"
type_synonym buffer = "byte list"
type_synonym fs = "string \<rightharpoonup> buffer"

datatype error = StructError | FileNotFoundError | UnicodeDecodeError | SystemExit int

text \<open>\<open>data[off:off+4]\<close> for \<open>off \<ge> 0\<close>: Python slices are clamped to the buffer.\<close>

definition slice4 :: "buffer \<Rightarrow> nat \<Rightarrow> buffer" where
  "slice4 data off = take 4 (drop off data)"

text \<open>\<open>data[off:off+4] = new\<close> on a bytearray: the slice is cut out and \<open>new\<close> put in.\<close>

definition set_slice4 :: "buffer \<Rightarrow> nat \<Rightarrow> buffer \<Rightarrow> buffer" where
  "set_slice4 data off new = take off data @ new @ drop (off + 4) data"

section \<open>scripts/patch\_glibc\_seccomp.py\<close>

subsection \<open>Constants and the instruction codec\<close>

definition BLOCKED_SYSCALLS :: "(int \<times> string) list" where
  "BLOCKED_SYSCALLS = [(99, ''set_robust_list''), (293, ''rseq'')]"

definition SVC_0 :: buffer where
  "SVC_0 = [0x01, 0x00, 0x00, 0xd4]"

definition MOVN_X0_37 :: buffer where
  "MOVN_X0_37 = [0xa0, 0x04, 0x80, 0x92]"

text \<open>
  \<open>struct.pack('<I', insn)\<close>: four little-endian bytes, and \<open>struct.error\<close> when
  \<open>insn\<close> is not an unsigned 32-bit value.
\<close>

definition pack_le_I :: "int \<Rightarrow> error + buffer" where
  "pack_le_I insn =
     (if 0 \<le> insn \<and> insn < 2 ^ 32
      then Inr [word_of_int insn, word_of_int (drop_bit 8 insn),
                word_of_int (drop_bit 16 insn), word_of_int (drop_bit 24 insn)]
      else Inl StructError)"

text \<open>
  \<open>struct.unpack('<I', prev)[0]\<close>: the unsigned value of four little-endian bytes, and
  \<open>struct.error\<close> for a buffer of any other length.
\<close>

fun unpack_le_I :: "buffer \<Rightarrow> error + int" where
  "unpack_le_I [b0, b1, b2, b3] =
     Inr (uint b0 + 256 * uint b1 + 65536 * uint b2 + 16777216 * uint b3)"
| "unpack_le_I _ = Inl StructError"

text \<open>\<open>insn = (0b11010010100 << 21) | (imm16 << 5) | 8\<close> on Python's unbounded integers.\<close>

definition encode_movz_x8 :: "int \<Rightarrow> error + buffer" where
  "encode_movz_x8 imm16 =
     (let insn = push_bit 21 (1684 :: int) OR push_bit 5 imm16 OR 8
      in pack_le_I insn)"

text \<open>The two break tests of the backward search, on the unpacked word.\<close>

definition is_movz_x8 :: "int \<Rightarrow> bool" where
  "is_movz_x8 insn \<longleftrightarrow> insn AND 0xFFE0001F = 0xD2800008"

definition is_branch :: "int \<Rightarrow> bool" where
  "is_branch insn \<longleftrightarrow> drop_bit 26 insn \<in> set [0x05, 0x25, 0x6B]"

subsection \<open>The lookup table\<close>

type_synonym targets = "buffer \<rightharpoonup> int \<times> string"

fun build_targets :: "(int \<times> string) list \<Rightarrow> targets \<Rightarrow> error + targets" where
  "build_targets [] tg = Inr tg"
| "build_targets ((nr, name) # rest) tg =
     (case encode_movz_x8 nr of
        Inl e \<Rightarrow> Inl e
      | Inr mov_bytes \<Rightarrow> build_targets rest (tg(mov_bytes \<mapsto> (nr, name))))"

subsection \<open>The scan\<close>

text \<open>
  One line of the trace the script prints for each patched trap: the trap offset, the
  offset of the \<open>mov x8\<close> found, the number of instructions between them, and the
  table entry.
\<close>

record match_rec =
  trap :: nat
  anchor :: nat
  dist :: nat
  sys_nr :: int
  sys_name :: string

record scan_state =
  data :: buffer
  total_patches :: nat
  trace :: "match_rec list"

definition LOOKBACK :: nat where
  "LOOKBACK = 16"

text \<open>
  The inner loop \<open>for back in range(1, LOOKBACK + 1)\<close>, over the list of the values of
  \<open>back\<close> still to come. \<open>Inr None\<close> is a loop that ended with no patch (by
  \<open>break\<close> or by running out), \<open>Inr (Some m)\<close> the patch branch.
  \<open>prev_off < 0\<close> is \<open>offset < back * 4\<close> on naturals.
\<close>

fun search_back :: "targets \<Rightarrow> buffer \<Rightarrow> nat \<Rightarrow> nat list \<Rightarrow> error + match_rec option" where
  "search_back tg dat offset [] = Inr None"
| "search_back tg dat offset (back # backs) =
     (if offset < back * 4 then Inr None
      else
        let prev_off = offset - back * 4;
            prev = slice4 dat prev_off
        in case tg prev of
             Some (nr, name) \<Rightarrow>
               Inr (Some \<lparr>trap = offset, anchor = prev_off, dist = back,
                          sys_nr = nr, sys_name = name\<rparr>)
           | None \<Rightarrow>
               (case unpack_le_I prev of
                  Inl e \<Rightarrow> Inl e
                | Inr insn \<Rightarrow>
                    if is_movz_x8 insn then Inr None
                    else if is_branch insn then Inr None
                    else search_back tg dat offset backs))"

text \<open>
  The outer loop \<open>for offset in range(4, len(data) - 3, 4)\<close>, over the list of offsets
  still to come.
\<close>

fun scan :: "targets \<Rightarrow> nat list \<Rightarrow> scan_state \<Rightarrow> error + scan_state" where
  "scan tg [] st = Inr st"
| "scan tg (offset # offs) st =
     (if slice4 (data st) offset = SVC_0 then
        (case search_back tg (data st) offset [1 ..< LOOKBACK + 1] of
           Inl e \<Rightarrow> Inl e
         | Inr None \<Rightarrow> scan tg offs st
         | Inr (Some m) \<Rightarrow>
             scan tg offs
               \<lparr>data = set_slice4 (data st) offset MOVN_X0_37,
                total_patches = total_patches st + 1,
                trace = trace st @ [m]\<rparr>)
      else scan tg offs st)"

text \<open>
  \<open>range(start, stop, 4)\<close> on naturals. The script's stop is \<open>len(data) - 3\<close>, which
  is negative for a buffer of fewer than three bytes; the range is empty then, as it is
  for the stop 0 that the subtraction on naturals gives.
\<close>

function range4 :: "nat \<Rightarrow> nat \<Rightarrow> nat list" where
  "range4 start stop = (if start < stop then start # range4 (start + 4) stop else [])"
  by pat_completeness auto
termination
  by (relation "measure (\<lambda>(start, stop). stop - start)") auto

declare range4.simps [simp del]

text \<open>Lines 51 to 86 of \<open>patch_binary\<close>: the work on the buffer in memory.\<close>

definition patch_buffer :: "buffer \<Rightarrow> error + scan_state" where
  "patch_buffer original =
     (case build_targets BLOCKED_SYSCALLS Map.empty of
        Inl e \<Rightarrow> Inl e
      | Inr tg \<Rightarrow>
          scan tg (range4 4 (length original - 3))
            \<lparr>data = original, total_patches = 0, trace = []\<rparr>)"

text \<open>
  \<open>patch_binary(filepath)\<close>: the store after the call and what the call returns.
  \<open>shutil.copy2(filepath, backup)\<close> copies the file as it is on disk, which is still
  the contents read at the start.
\<close>

definition patch_binary :: "fs \<Rightarrow> string \<Rightarrow> fs \<times> (error + bool)" where
  "patch_binary files filepath =
     (case files filepath of
        None \<Rightarrow> (files, Inl FileNotFoundError)
      | Some original \<Rightarrow>
          (case patch_buffer original of
             Inl e \<Rightarrow> (files, Inl e)
           | Inr st \<Rightarrow>
               if total_patches st = 0 then (files, Inr False)
               else
                 let backup = filepath @ ''.orig'';
                     files1 = (if files backup \<noteq> None then files
                               else files(backup \<mapsto> original))
                 in (files1(filepath \<mapsto> data st), Inr True)))"

section \<open>scripts/patch\_vortek\_socket\_path.py\<close>

text \<open>
  This script has a \<open>patch_binary\<close> of its own, on a buffer in memory; it is
  \<open>vortek_patch_binary\<close> here.
\<close>

definition bytes_of :: "string \<Rightarrow> buffer" where
  "bytes_of s = map of_char s"

definition OLD_SOCKET :: buffer where
  "OLD_SOCKET = bytes_of ''/data/data/com.winlator/files/rootfs/tmp/.vortek/V0''"

definition NEW_SOCKET :: buffer where
  "NEW_SOCKET = bytes_of ''/data/data/com.mediatek.steamlauncher/V0''"

definition OLD_RUNPATH :: buffer where
  "OLD_RUNPATH = bytes_of ''/data/data/com.winlator/files/rootfs/lib''"

definition NEW_RUNPATH :: buffer where
  "NEW_RUNPATH = []"

text \<open>
  \<open>data.count(old)\<close>: the number of occurrences found from left to right, each search
  starting after the previous occurrence. The empty pattern is found before every byte
  and at the end.
\<close>

function bytes_count :: "buffer \<Rightarrow> buffer \<Rightarrow> nat" where
  "bytes_count dat old =
     (if old = [] then length dat + 1
      else if length dat < length old then 0
      else if take (length old) dat = old
        then 1 + bytes_count (drop (length old) dat) old
      else bytes_count (tl dat) old)"
  by pat_completeness auto
termination
  apply (relation "measure (\<lambda>(dat, old). length dat)")
    apply simp
  subgoal for dat old by (cases old) auto
  subgoal for dat old by (cases old) auto
  done

declare bytes_count.simps [simp del]

text \<open>
  \<open>data.replace(old, new)\<close>: the same left-to-right search, each occurrence replaced.
  With the empty pattern, \<open>new\<close> is put before every byte and at the end.
\<close>

function bytes_replace :: "buffer \<Rightarrow> buffer \<Rightarrow> buffer \<Rightarrow> buffer" where
  "bytes_replace dat old new =
     (if old = [] then new @ concat (map (\<lambda>b. b # new) dat)
      else if length dat < length old then dat
      else if take (length old) dat = old
        then new @ bytes_replace (drop (length old) dat) old new
      else hd dat # bytes_replace (tl dat) old new)"
  by pat_completeness auto
termination
  apply (relation "measure (\<lambda>(dat, old, new). length dat)")
    apply simp
  subgoal for dat old by (cases old) auto
  subgoal for dat old by (cases old) auto
  done

declare bytes_replace.simps [simp del]

text \<open>
  Whether \<open>b.decode()\<close> returns: the byte sequences of well-formed UTF-8 (no overlong
  forms, no surrogates, nothing above U+10FFFF). The progress message of
  \<open>patch_binary\<close> decodes both paths.
\<close>

definition cont_byte :: "byte \<Rightarrow> bool" where
  "cont_byte c \<longleftrightarrow> 0x80 \<le> c \<and> c \<le> 0xBF"

fun decodes :: "buffer \<Rightarrow> bool" where
  "decodes [] = True"
| "decodes (b # bs) =
     (if b \<le> 0x7F then decodes bs
      else if 0xC2 \<le> b \<and> b \<le> 0xDF then
        (case bs of c1 # r \<Rightarrow> cont_byte c1 \<and> decodes r | _ \<Rightarrow> False)
      else if 0xE0 \<le> b \<and> b \<le> 0xEF then
        (case bs of
           c1 # c2 # r \<Rightarrow>
             (if b = 0xE0 then 0xA0 \<le> c1 \<and> c1 \<le> 0xBF
              else if b = 0xED then 0x80 \<le> c1 \<and> c1 \<le> 0x9F
              else cont_byte c1)
             \<and> cont_byte c2 \<and> decodes r
         | _ \<Rightarrow> False)
      else if 0xF0 \<le> b \<and> b \<le> 0xF4 then
        (case bs of
           c1 # c2 # c3 # r \<Rightarrow>
             (if b = 0xF0 then 0x90 \<le> c1 \<and> c1 \<le> 0xBF
              else if b = 0xF4 then 0x80 \<le> c1 \<and> c1 \<le> 0x8F
              else cont_byte c1)
             \<and> cont_byte c2 \<and> cont_byte c3 \<and> decodes r
         | _ \<Rightarrow> False)
      else False)"

definition vortek_patch_binary ::
  "buffer \<Rightarrow> buffer \<Rightarrow> buffer \<Rightarrow> string \<Rightarrow> error + buffer" where
  "vortek_patch_binary dat old new name =
     (let count = bytes_count dat old in
      if count = 0 then Inr dat
      else if length new > length old then Inl (SystemExit 1)
      else
        let padded = new @ replicate (length old - length new) 0;
            dat' = bytes_replace dat old padded
        in if decodes old \<and> decodes new then Inr dat' else Inl UnicodeDecodeError)"

text \<open>
  \<open>patch_file\<close> with its two replacements as parameters; the script calls
  \<open>patch_binary\<close> with the socket path first and the RUNPATH second. The file is
  written only after both calls have returned.
\<close>

definition patch_file_with ::
  "buffer \<Rightarrow> buffer \<Rightarrow> string \<Rightarrow> buffer \<Rightarrow> buffer \<Rightarrow> string \<Rightarrow> fs \<Rightarrow> string
     \<Rightarrow> fs \<times> (error + unit)" where
  "patch_file_with old1 new1 name1 old2 new2 name2 files filepath =
     (case files filepath of
        None \<Rightarrow> (files, Inl FileNotFoundError)
      | Some dat0 \<Rightarrow>
          (case vortek_patch_binary dat0 old1 new1 name1 of
             Inl e \<Rightarrow> (files, Inl e)
           | Inr dat1 \<Rightarrow>
               (case vortek_patch_binary dat1 old2 new2 name2 of
                  Inl e \<Rightarrow> (files, Inl e)
                | Inr dat2 \<Rightarrow> (files(filepath \<mapsto> dat2), Inr Unity))))"

definition patch_file :: "fs \<Rightarrow> string \<Rightarrow> fs \<times> (error + unit)" where
  "patch_file =
     patch_file_with OLD_SOCKET NEW_SOCKET ''Socket path''
       OLD_RUNPATH NEW_RUNPATH ''RUNPATH''"

section \<open>Auxiliary notions for the proofs\<close>

text \<open>The table that \<open>build_targets\<close> makes of \<open>BLOCKED_SYSCALLS\<close>.\<close>

definition TARGETS :: targets where
  "TARGETS = [[0x68, 0x0c, 0x80, 0xd2] \<mapsto> (99, ''set_robust_list''),
              [0xa8, 0x24, 0x80, 0xd2] \<mapsto> (293, ''rseq'')]"

text \<open>The offsets the outer loop visits.\<close>

definition offsets :: "buffer \<Rightarrow> nat list" where
  "offsets b = range4 4 (length b - 3)"

text \<open>
  What holds of a trace entry \<open>m\<close> between the buffer \<open>d\<close> before a scan over
  \<open>offs\<close> and the buffer \<open>d'\<close> after it.
\<close>

definition match_ok :: "targets \<Rightarrow> nat list \<Rightarrow> buffer \<Rightarrow> buffer \<Rightarrow> match_rec \<Rightarrow> bool" where
  "match_ok tg offs d d' m \<longleftrightarrow>
     trap m \<in> set offs \<and> 1 \<le> dist m \<and> dist m \<le> LOOKBACK \<and>
     anchor m + 4 * dist m = trap m \<and>
     slice4 d (trap m) = SVC_0 \<and> slice4 d' (trap m) = MOVN_X0_37 \<and>
     slice4 d' (anchor m) = slice4 d (anchor m) \<and>
     tg (slice4 d (anchor m)) = Some (sys_nr m, sys_name m)"

text \<open>
  The relation between the state before and after a scan over \<open>offs\<close>, with
  \<open>ms\<close> the trace entries the scan appended.
\<close>

definition scan_post :: "targets \<Rightarrow> nat list \<Rightarrow> scan_state \<Rightarrow> scan_state \<Rightarrow> match_rec list \<Rightarrow> bool" where
  "scan_post tg offs st st' ms \<longleftrightarrow>
     trace st' = trace st @ ms \<and> total_patches st' = total_patches st + length ms \<and>
     length (data st') = length (data st) \<and>
     (\<forall>i<length (data st). (\<forall>m\<in>set ms. i < trap m \<or> trap m + 4 \<le> i) \<longrightarrow> data st' ! i = data st ! i) \<and>
     sorted_wrt (<) (map trap ms) \<and>
     (\<forall>m\<in>set ms. match_ok tg offs (data st) (data st') m)"

text \<open>
  The return and indirect-branch class that the script's comment names (\<open>ret/br\<close>):
  the words whose top seven bits are 1101011, that is 0x6B after a shift by 25. This is
  the architecture's class, not a test the script makes.
\<close>

definition ret_br_class :: "int \<Rightarrow> bool" where
  "ret_br_class insn \<longleftrightarrow> drop_bit 25 insn = 0x6B"

text \<open>
  A filler word of the correlation property: four bytes that are not \<open>svc #0\<close>, not a
  load into register 8, and not a branch: neither one the backward search tests for
  nor one of the return and indirect-branch class.
\<close>

definition filler :: "buffer \<Rightarrow> bool" where
  "filler w \<longleftrightarrow>
     w \<noteq> SVC_0 \<and>
     (case unpack_le_I w of
        Inl e \<Rightarrow> False
      | Inr insn \<Rightarrow> \<not> is_movz_x8 insn \<and> \<not> is_branch insn \<and> \<not> ret_br_class insn)"

text \<open>An exact occurrence of \<open>old\<close> in \<open>dat\<close> at position \<open>p\<close>.\<close>

definition occurs_at :: "buffer \<Rightarrow> buffer \<Rightarrow> nat \<Rightarrow> bool" where
  "occurs_at dat old p \<longleftrightarrow> take (length old) (drop p dat) = old"

text \<open>
  The positions at which the left-to-right search of \<open>count\<close> and \<open>replace\<close> finds
  \<open>old\<close>: the first occurrence, then the first one that starts after its end, and so
  on.
\<close>

function occs :: "buffer \<Rightarrow> buffer \<Rightarrow> nat list" where
  "occs dat old =
     (if old = [] \<or> length dat < length old then []
      else if take (length old) dat = old
        then 0 # map (\<lambda>p. length old + p) (occs (drop (length old) dat) old)
      else map Suc (occs (tl dat) old))"
  by pat_completeness auto
termination
  apply (relation "measure (\<lambda>(dat, old). length dat)")
    apply simp
  subgoal for dat old by (cases old) auto
  subgoal for dat old by (cases old) auto
  done

declare occs.simps [simp del]

section \<open>Slices\<close>

lemma length_slice4: "off + 4 \<le> length d \<Longrightarrow> length (slice4 d off) = 4"
  by (simp add: slice4_def)

lemma slice4_len4_iff: "length (slice4 d off) = 4 \<longleftrightarrow> off + 4 \<le> length d"
  by (auto simp: slice4_def)

lemma length_set_slice4:
  "off + 4 \<le> length d \<Longrightarrow> length new = 4 \<Longrightarrow> length (set_slice4 d off new) = length d"
  by (simp add: set_slice4_def)

lemma nth_set_slice4_out:
  "off + 4 \<le> length d \<Longrightarrow> length new = 4 \<Longrightarrow> i < off \<or> off + 4 \<le> i
     \<Longrightarrow> set_slice4 d off new ! i = d ! i"
  by (auto simp: set_slice4_def nth_append)

lemma slice4_set_slice4_same:
  "off \<le> length d \<Longrightarrow> length new = 4 \<Longrightarrow> slice4 (set_slice4 d off new) off = new"
  by (simp add: slice4_def set_slice4_def)

lemma take_set_slice4:
  "k \<le> off \<Longrightarrow> off \<le> length d \<Longrightarrow> take k (set_slice4 d off new) = take k d"
  by (simp add: set_slice4_def)

lemma slice4_take: "p + 4 \<le> k \<Longrightarrow> slice4 (take k d) p = slice4 d p"
  by (simp add: slice4_def drop_take)

lemma slice4_cong_take:
  "take k d = take k d' \<Longrightarrow> p + 4 \<le> k \<Longrightarrow> slice4 d p = slice4 d' p"
  by (metis slice4_take)

lemma slice4_eq_nth:
  assumes "length d = length d'" "\<And>i. p \<le> i \<Longrightarrow> i < p + 4 \<Longrightarrow> i < length d \<Longrightarrow> d ! i = d' ! i"
  shows "slice4 d p = slice4 d' p"
  using assms by (auto simp: slice4_def list_eq_iff_nth_eq)

lemma slice4_nth:
  "p + 4 \<le> length d \<Longrightarrow> i < 4 \<Longrightarrow> slice4 d p ! i = d ! (p + i)"
  by (simp add: slice4_def)


lemma unpack_le_I_len4: "length bs = 4 \<Longrightarrow> \<exists>v. unpack_le_I bs = Inr v"
  by (cases bs rule: unpack_le_I.cases) auto

lemma search_back_total:
  "offset \<le> length d \<Longrightarrow> \<forall>b\<in>set backs. 1 \<le> b
     \<Longrightarrow> \<exists>r. search_back tg d offset backs = Inr r"
proof (induction backs)
  case Nil
  then show ?case by simp
next
  case (Cons bk backs)
  show ?case
  proof (cases "offset < bk * 4")
    case True
    then show ?thesis by simp
  next
    case False
    with Cons.prems have "(offset - bk * 4) + 4 \<le> length d" by auto
    then have "length (slice4 d (offset - bk * 4)) = 4" by (rule length_slice4)
    then obtain v where "unpack_le_I (slice4 d (offset - bk * 4)) = Inr v"
      using unpack_le_I_len4 by blast
    with False Cons show ?thesis
      by (auto simp: Let_def split: option.splits)
  qed
qed

lemma search_back_Some:
  "search_back tg d offset backs = Inr (Some m)
     \<Longrightarrow> trap m = offset \<and> dist m \<in> set backs \<and> anchor m + 4 * dist m = offset
         \<and> tg (slice4 d (anchor m)) = Some (sys_nr m, sys_name m)"
  by (induction backs)
     (auto simp: Let_def split: if_splits option.splits sum.splits)

lemma search_back_cong:
  "take offset d = take offset d' \<Longrightarrow> \<forall>b\<in>set backs. 1 \<le> b
     \<Longrightarrow> search_back tg d offset backs = search_back tg d' offset backs"
proof (induction backs)
  case Nil
  then show ?case by simp
next
  case (Cons bk backs)
  show ?case
  proof (cases "offset < bk * 4")
    case True
    then show ?thesis by simp
  next
    case False
    with Cons.prems have "(offset - bk * 4) + 4 \<le> offset" by auto
    with Cons.prems have "slice4 d (offset - bk * 4) = slice4 d' (offset - bk * 4)"
      by (metis slice4_cong_take)
    with False Cons show ?thesis
      by (simp add: Let_def split: option.splits sum.splits)
  qed
qed

lemma backs_ge1: "\<forall>b\<in>set [1 ..< LOOKBACK + 1]. 1 \<le> b"
  by auto

lemma SVC_0_len: "length SVC_0 = 4" by (simp add: SVC_0_def)
lemma MOVN_len: "length MOVN_X0_37 = 4" by (simp add: MOVN_X0_37_def)
lemma MOVN_neq_SVC: "MOVN_X0_37 \<noteq> SVC_0" by (simp add: MOVN_X0_37_def SVC_0_def)

lemma slice4_SVC_bound: "slice4 d off = SVC_0 \<Longrightarrow> off + 4 \<le> length d"
  using slice4_len4_iff [of d off] by (simp add: SVC_0_len)

text \<open>One offset of the outer loop.\<close>

lemma scan_Cons:
  "scan tg (offset # offs) st =
     (case scan tg [offset] st of Inl e \<Rightarrow> Inl e | Inr st1 \<Rightarrow> scan tg offs st1)"
  by (simp split: sum.splits option.splits)

lemma scan_single_cases:
  assumes "scan tg [offset] st = Inr st1"
  obtains
    (skip) "st1 = st" "slice4 (data st) offset \<noteq> SVC_0"
  | (nomatch) "st1 = st" "slice4 (data st) offset = SVC_0"
      "search_back tg (data st) offset [1 ..< LOOKBACK + 1] = Inr None"
  | (hit) m where "slice4 (data st) offset = SVC_0"
      "search_back tg (data st) offset [1 ..< LOOKBACK + 1] = Inr (Some m)"
      "st1 = \<lparr>data = set_slice4 (data st) offset MOVN_X0_37,
              total_patches = total_patches st + 1, trace = trace st @ [m]\<rparr>"
  using assms by (auto split: if_splits sum.splits option.splits)

lemma scan_single_total: "\<exists>st1. scan tg [offset] st = Inr st1"
proof (cases "slice4 (data st) offset = SVC_0")
  case True
  then have "offset \<le> length (data st)" using slice4_SVC_bound by fastforce
  then obtain r where "search_back tg (data st) offset [1 ..< LOOKBACK + 1] = Inr r"
    using search_back_total backs_ge1 by blast
  with True show ?thesis by (cases r) auto
next
  case False
  then show ?thesis by simp
qed

lemma scan_total: "\<exists>st'. scan tg offs st = Inr st'"
proof (induction offs arbitrary: st)
  case Nil
  then show ?case by simp
next
  case (Cons offset offs)
  obtain st1 where "scan tg [offset] st = Inr st1" using scan_single_total by blast
  with Cons show ?case by (subst scan_Cons) simp
qed


lemma slice4_set_slice4_before:
  "p + 4 \<le> off \<Longrightarrow> off \<le> length d \<Longrightarrow> slice4 (set_slice4 d off new) p = slice4 d p"
  by (metis take_set_slice4 slice4_cong_take order_refl)

lemma slice4_set_slice4_after:
  "off + 4 \<le> p \<Longrightarrow> off + 4 \<le> length d \<Longrightarrow> length new = 4
     \<Longrightarrow> slice4 (set_slice4 d off new) p = slice4 d p"
  by (rule slice4_eq_nth) (auto simp: length_set_slice4 nth_set_slice4_out)

lemma scan_single_prefix:
  assumes "scan tg [offset] st = Inr st1" "k \<le> offset"
  shows "take k (data st1) = take k (data st) \<and> length (data st1) = length (data st)"
  using assms(1)
proof (cases rule: scan_single_cases)
  case (hit m)
  then have "offset + 4 \<le> length (data st)" using slice4_SVC_bound by blast
  with hit assms(2) show ?thesis
    by (simp add: take_set_slice4 length_set_slice4 MOVN_len)
qed simp_all

lemma scan_prefix:
  "\<forall>offset\<in>set offs. k \<le> offset \<Longrightarrow> scan tg offs st = Inr st'
     \<Longrightarrow> take k (data st') = take k (data st) \<and> length (data st') = length (data st)"
proof (induction offs arbitrary: st)
  case Nil
  then show ?case by simp
next
  case (Cons offset offs)
  from Cons.prems(2) obtain st1
    where s1: "scan tg [offset] st = Inr st1" and s2: "scan tg offs st1 = Inr st'"
    by (subst (asm) scan_Cons) (auto split: sum.splits)
  from s1 Cons.prems(1) have "take k (data st1) = take k (data st) \<and> length (data st1) = length (data st)"
    by (intro scan_single_prefix) auto
  moreover from Cons.IH [OF _ s2] Cons.prems(1)
  have "take k (data st') = take k (data st1) \<and> length (data st') = length (data st1)"
    by simp
  ultimately show ?case by simp
qed

lemma scan_length: "scan tg offs st = Inr st' \<Longrightarrow> length (data st') = length (data st)"
  using scan_prefix [of offs 0 tg st st'] by simp


lemma match_ok_mono:
  "match_ok tg offs d d' m \<Longrightarrow> match_ok tg (offset # offs) d d' m"
  by (simp add: match_ok_def)

lemma scan_post_skip:
  "scan_post tg offs st st' ms \<Longrightarrow> scan_post tg (offset # offs) st st' ms"
  by (simp add: scan_post_def match_ok_mono)

lemma scan_post_hit:
  assumes gap: "\<forall>x\<in>set offs. offset + 4 \<le> x"
    and al: "4 dvd offset" "\<forall>x\<in>set offs. 4 dvd x"
    and movn: "tg MOVN_X0_37 = None"
    and svc: "slice4 (data st) offset = SVC_0"
    and sb: "search_back tg (data st) offset [1 ..< LOOKBACK + 1] = Inr (Some m0)"
    and st1: "st1 = \<lparr>data = set_slice4 (data st) offset MOVN_X0_37,
              total_patches = total_patches st + 1, trace = trace st @ [m0]\<rparr>"
    and s2: "scan tg offs st1 = Inr st'"
    and rel: "scan_post tg offs st1 st' ms1"
  shows "scan_post tg (offset # offs) st st' (m0 # ms1)"
proof -
  let ?d = "data st" and ?d1 = "data st1" and ?d' = "data st'"
  have bound: "offset + 4 \<le> length ?d" using svc by (rule slice4_SVC_bound)
  have d1: "?d1 = set_slice4 ?d offset MOVN_X0_37" by (simp add: st1)
  have len1: "length ?d1 = length ?d" by (simp add: d1 length_set_slice4 bound MOVN_len)
  from rel have len': "length ?d' = length ?d1" by (simp add: scan_post_def)
  have m0: "trap m0 = offset" "dist m0 \<in> set [1 ..< LOOKBACK + 1]"
    "anchor m0 + 4 * dist m0 = offset" "tg (slice4 ?d (anchor m0)) = Some (sys_nr m0, sys_name m0)"
    using search_back_Some [OF sb] by simp_all
  have pre: "take (offset + 4) ?d' = take (offset + 4) ?d1"
    using scan_prefix [OF gap s2] by simp
  have at_off: "slice4 ?d' offset = MOVN_X0_37"
  proof -
    have "slice4 ?d' offset = slice4 ?d1 offset"
      using pre by (rule slice4_cong_take) simp
    then show ?thesis using bound by (simp add: d1 slice4_set_slice4_same MOVN_len)
  qed
  have before: "slice4 ?d' p = slice4 ?d p" if "p + 4 \<le> offset" for p
  proof -
    have "slice4 ?d' p = slice4 ?d1 p"
      using pre by (rule slice4_cong_take) (use that in simp)
    then show ?thesis using that bound by (simp add: d1 slice4_set_slice4_before)
  qed
  have ok0: "match_ok tg (offset # offs) ?d ?d' m0"
    using m0 svc at_off before [of "anchor m0"] by (auto simp: match_ok_def)
  have ok1: "match_ok tg (offset # offs) ?d ?d' m" if "m \<in> set ms1" for m
  proof -
    from rel that have ok: "match_ok tg offs ?d1 ?d' m" by (simp add: scan_post_def)
    then have tr: "trap m \<in> set offs" by (simp add: match_ok_def)
    with gap have ge: "offset + 4 \<le> trap m" by blast
    from tr al have "4 dvd trap m" by blast
    moreover from ok have am: "anchor m + 4 * dist m = trap m" by (simp add: match_ok_def)
    ultimately have "4 dvd anchor m" by (metis dvd_add_left_iff dvd_triv_left)
    with al(1) have tri: "anchor m + 4 \<le> offset \<or> anchor m = offset \<or> offset + 4 \<le> anchor m"
      by (auto elim!: dvdE)
    have neq: "anchor m \<noteq> offset"
    proof
      assume "anchor m = offset"
      then have "slice4 ?d1 (anchor m) = MOVN_X0_37"
        using bound by (simp add: d1 slice4_set_slice4_same MOVN_len)
      with ok movn show False by (simp add: match_ok_def)
    qed
    have anc: "slice4 ?d1 (anchor m) = slice4 ?d (anchor m)"
      using tri neq bound by (auto simp: d1 slice4_set_slice4_before slice4_set_slice4_after MOVN_len)
    have trp: "slice4 ?d1 (trap m) = slice4 ?d (trap m)"
      using ge bound by (simp add: d1 slice4_set_slice4_after MOVN_len)
    from ok anc trp show ?thesis by (simp add: match_ok_def)
  qed
  have frame: "?d' ! i = ?d ! i"
    if "i < length ?d" "\<forall>m\<in>set (m0 # ms1). i < trap m \<or> trap m + 4 \<le> i" for i
  proof -
    from that rel len1 have "?d' ! i = ?d1 ! i" by (simp add: scan_post_def)
    also from that m0(1) bound have "?d1 ! i = ?d ! i"
      by (simp add: d1 nth_set_slice4_out MOVN_len)
    finally show ?thesis .
  qed
  have sorted: "sorted_wrt (<) (map trap (m0 # ms1))"
  proof -
    have "trap m0 < trap m" if "m \<in> set ms1" for m
    proof -
      from rel that have "trap m \<in> set offs" by (simp add: scan_post_def match_ok_def)
      with gap m0(1) show ?thesis by fastforce
    qed
    with rel show ?thesis by (simp add: scan_post_def)
  qed
  from rel have "trace st' = trace st @ m0 # ms1" "total_patches st' = total_patches st + length (m0 # ms1)"
    by (simp_all add: scan_post_def st1)
  with len1 len' frame sorted ok0 ok1 show ?thesis
    unfolding scan_post_def by (intro conjI) auto
qed

lemma scan_post_ex:
  assumes "sorted_wrt (\<lambda>a b. a + 4 \<le> b) offs" "\<forall>x\<in>set offs. 4 dvd x"
    and "tg MOVN_X0_37 = None" "scan tg offs st = Inr st'"
  shows "\<exists>ms. scan_post tg offs st st' ms"
  using assms
proof (induction offs arbitrary: st)
  case Nil
  then show ?case by (simp add: scan_post_def)
next
  case (Cons offset offs)
  from Cons.prems(4) obtain st1
    where s1: "scan tg [offset] st = Inr st1" and s2: "scan tg offs st1 = Inr st'"
    by (subst (asm) scan_Cons) (auto split: sum.splits)
  from Cons.prems have gap: "\<forall>x\<in>set offs. offset + 4 \<le> x"
    and srt: "sorted_wrt (\<lambda>a b. a + 4 \<le> b) offs"
    and al: "4 dvd offset" "\<forall>x\<in>set offs. 4 dvd x"
    by simp_all
  from Cons.IH [OF srt al(2) Cons.prems(3) s2]
  obtain ms1 where rel: "scan_post tg offs st1 st' ms1" by blast
  from s1 show ?case
  proof (cases rule: scan_single_cases)
    case skip
    with rel show ?thesis using scan_post_skip by blast
  next
    case nomatch
    with rel show ?thesis using scan_post_skip by blast
  next
    case (hit m0)
    from scan_post_hit [OF gap al Cons.prems(3) hit(1) hit(2) hit(3) s2 rel]
    show ?thesis by blast
  qed
qed

section \<open>The table, the offsets and a second scan\<close>

lemma encode_99: "encode_movz_x8 99 = Inr [0x68, 0x0c, 0x80, 0xd2]"
  by (simp add: encode_movz_x8_def pack_le_I_def)

lemma encode_293: "encode_movz_x8 293 = Inr [0xa8, 0x24, 0x80, 0xd2]"
  by (simp add: encode_movz_x8_def pack_le_I_def)

lemma build_targets_table: "build_targets BLOCKED_SYSCALLS Map.empty = Inr TARGETS"
  by (simp add: BLOCKED_SYSCALLS_def encode_99 encode_293 TARGETS_def)

lemma TARGETS_MOVN: "TARGETS MOVN_X0_37 = None"
  by (simp add: TARGETS_def MOVN_X0_37_def)

lemma range4_props:
  "4 dvd start \<Longrightarrow>
     sorted_wrt (\<lambda>a b. a + 4 \<le> b) (range4 start stop) \<and>
     (\<forall>x\<in>set (range4 start stop). 4 dvd x \<and> start \<le> x \<and> x < stop)"
proof (induction start stop rule: range4.induct)
  case (1 start stop)
  show ?case
  proof (cases "start < stop")
    case True
    with 1 have IH: "sorted_wrt (\<lambda>a b. a + 4 \<le> b) (range4 (start + 4) stop)"
      "\<forall>x\<in>set (range4 (start + 4) stop). 4 dvd x \<and> start + 4 \<le> x \<and> x < stop"
      by simp_all
    have eq: "range4 start stop = start # range4 (start + 4) stop"
      using True by (subst range4.simps) simp
    show ?thesis
      unfolding eq using IH True "1.prems" by auto
  next
    case False
    then have "range4 start stop = []" by (subst range4.simps) simp
    then show ?thesis by simp
  qed
qed

lemma offsets_sorted: "sorted_wrt (\<lambda>a b. a + 4 \<le> b) (offsets b)"
  and offsets_aligned: "\<forall>x\<in>set (offsets b). 4 dvd x"
  using range4_props [of 4 "length b - 3"] by (simp_all add: offsets_def)

lemma patch_buffer_scan:
  "patch_buffer b = scan TARGETS (offsets b) \<lparr>data = b, total_patches = 0, trace = []\<rparr>"
  by (simp add: patch_buffer_def build_targets_table offsets_def)

lemma patch_buffer_post:
  "\<exists>st ms. patch_buffer b = Inr st \<and>
     scan_post TARGETS (offsets b) \<lparr>data = b, total_patches = 0, trace = []\<rparr> st ms"
proof -
  obtain st where st: "patch_buffer b = Inr st"
    using scan_total [of TARGETS "offsets b"] by (auto simp: patch_buffer_scan)
  then have "scan TARGETS (offsets b) \<lparr>data = b, total_patches = 0, trace = []\<rparr> = Inr st"
    by (simp add: patch_buffer_scan)
  from scan_post_ex [OF offsets_sorted offsets_aligned TARGETS_MOVN this] st
  show ?thesis by blast
qed

lemma scan_idem:
  assumes "sorted_wrt (\<lambda>a b. a + 4 \<le> b) offs" "scan tg offs st = Inr st'"
    and "data st2 = data st'"
  shows "scan tg offs st2 = Inr st2"
  using assms
proof (induction offs arbitrary: st)
  case Nil
  then show ?case by simp
next
  case (Cons offset offs)
  from Cons.prems(2) obtain st1
    where s1: "scan tg [offset] st = Inr st1" and s2: "scan tg offs st1 = Inr st'"
    by (subst (asm) scan_Cons) (auto split: sum.splits)
  from Cons.prems have gap: "\<forall>x\<in>set offs. offset + 4 \<le> x"
    and srt: "sorted_wrt (\<lambda>a b. a + 4 \<le> b) offs"
    by simp_all
  have rest: "scan tg offs st2 = Inr st2"
    using Cons.IH [OF srt s2 Cons.prems(3)] .
  have pre: "take (offset + 4) (data st2) = take (offset + 4) (data st1)"
    using scan_prefix [OF gap s2] Cons.prems(3) by simp
  then have at_off: "slice4 (data st2) offset = slice4 (data st1) offset"
    by (rule slice4_cong_take) simp
  have "take offset (take (offset + 4) (data st2)) = take offset (take (offset + 4) (data st1))"
    using pre by simp
  then have pre2: "take offset (data st2) = take offset (data st1)" by simp
  have pre1: "take offset (data st1) = take offset (data st)"
    using scan_single_prefix [OF s1, of offset] by simp
  have "scan tg [offset] st2 = Inr st2"
    using s1
  proof (cases rule: scan_single_cases)
    case skip
    with at_off show ?thesis by simp
  next
    case nomatch
    have "search_back tg (data st2) offset [1 ..< LOOKBACK + 1]
            = search_back tg (data st) offset [1 ..< LOOKBACK + 1]"
      using pre1 pre2 by (intro search_back_cong backs_ge1) simp
    with nomatch show ?thesis by simp
  next
    case (hit m)
    then have "offset \<le> length (data st)" using slice4_SVC_bound by fastforce
    with hit have "slice4 (data st1) offset = MOVN_X0_37"
      by (simp add: slice4_set_slice4_same MOVN_len)
    with at_off MOVN_neq_SVC show ?thesis by simp
  qed
  with rest show ?case by (subst scan_Cons) simp
qed

lemma offsets_cong: "length b = length b' \<Longrightarrow> offsets b = offsets b'"
  by (simp add: offsets_def)

section \<open>The encoder and the mask test\<close>

lemma bytes_uint:
  "uint (word_of_int x :: byte) = x mod 256"
  "uint (word_of_int (drop_bit 8 x) :: byte) = x div 256 mod 256"
  "uint (word_of_int (drop_bit 16 x) :: byte) = x div 65536 mod 256"
  "uint (word_of_int (drop_bit 24 x) :: byte) = x div 16777216 mod 256"
  by (simp_all add: uint_word_of_int take_bit_eq_mod drop_bit_eq_div)

lemma le_sum:
  fixes x :: int
  assumes "0 \<le> x" "x < 2 ^ 32"
  shows "x mod 256 + 256 * (x div 256 mod 256) + 65536 * (x div 65536 mod 256)
          + 16777216 * (x div 16777216 mod 256) = x"
proof -
  have a: "x mod 65536 = 256 * (x div 256 mod 256) + x mod 256"
    using zmod_zmult2_eq [of 256 x 256] by simp
  have b: "x mod 16777216 = 65536 * (x div 65536 mod 256) + x mod 65536"
    using zmod_zmult2_eq [of 256 x 65536] by simp
  have c: "x mod 4294967296 = 16777216 * (x div 16777216 mod 256) + x mod 16777216"
    using zmod_zmult2_eq [of 256 x 16777216] by simp
  have d: "x mod 4294967296 = x" using assms by simp
  from a b c d show ?thesis by (simp only: ac_simps)
qed


lemma unpack_pack:
  assumes "0 \<le> x" "x < 2 ^ 32"
  shows "\<exists>bs. pack_le_I x = Inr bs \<and> unpack_le_I bs = Inr x"
proof -
  let ?bs = "[word_of_int x, word_of_int (drop_bit 8 x),
              word_of_int (drop_bit 16 x), word_of_int (drop_bit 24 x)] :: buffer"
  have p: "pack_le_I x = Inr ?bs"
    using assms by (simp add: pack_le_I_def)
  have "unpack_le_I ?bs = Inr (x mod 256 + 256 * (x div 256 mod 256)
          + 65536 * (x div 65536 mod 256) + 16777216 * (x div 16777216 mod 256))"
    by (simp add: bytes_uint(1) drop_bit_eq_div)
  then have "unpack_le_I ?bs = Inr x"
    by (simp only: le_sum [OF assms])
  with p show ?thesis by blast
qed

lemma mask_split: "(0xFFE0001F::int) = mask 5 OR push_bit 21 (mask 11)"
  by (simp add: mask_eq_exp_minus_1)

lemma and_load_mask:
  "(x::int) AND 0xFFE0001F = take_bit 5 x OR push_bit 21 (take_bit 11 (drop_bit 21 x))"
  unfolding mask_split by (rule bit_eqI) (auto simp: bit_simps)

lemma drop16: "0 \<le> imm \<Longrightarrow> imm < 2 ^ 16 \<Longrightarrow> drop_bit 16 (imm::int) = 0"
  by (simp add: drop_bit_eq_div)

lemma insn_test:
  assumes "0 \<le> imm" "imm < 2 ^ 16"
  shows "(push_bit 21 (1684 :: int) OR push_bit 5 imm OR 8) AND 0xFFE0001F = 0xD2800008"
  using drop16 [OF assms]
  by (simp add: and_load_mask drop_bit_push_bit take_bit_push_bit)

lemma insn_imm:
  assumes "0 \<le> imm" "imm < 2 ^ 16"
  shows "drop_bit 5 (push_bit 21 (1684 :: int) OR push_bit 5 imm OR 8) AND 0xFFFF = imm"
proof -
  have m: "(0xFFFF::int) = mask 16" by (simp add: mask_eq_exp_minus_1)
  have "take_bit 16 imm = imm" using assms by (simp add: take_bit_int_eq_self)
  then show ?thesis
    unfolding m by (simp add: take_bit_eq_mask [symmetric] drop_bit_push_bit)
qed

lemma insn_range:
  assumes "0 \<le> imm" "imm < 2 ^ 16"
  shows "0 \<le> push_bit 21 (1684 :: int) OR push_bit 5 imm OR 8"
    and "push_bit 21 (1684 :: int) OR push_bit 5 imm OR 8 < 2 ^ 32"
proof -
  show "0 \<le> push_bit 21 (1684 :: int) OR push_bit 5 imm OR 8"
    using assms by simp
  have "push_bit 5 imm < 2 ^ 32" using assms by (simp add: push_bit_eq_mult)
  then show "push_bit 21 (1684 :: int) OR push_bit 5 imm OR 8 < 2 ^ 32"
    using assms by (intro OR_upper) simp_all
qed

lemma encode_movz_x8_word:
  assumes "0 \<le> imm16" "imm16 < 2 ^ 16"
  shows "\<exists>bs insn. encode_movz_x8 imm16 = Inr bs \<and> unpack_le_I bs = Inr insn \<and>
           is_movz_x8 insn \<and> drop_bit 5 insn AND 0xFFFF = imm16"
proof -
  let ?insn = "push_bit 21 (1684 :: int) OR push_bit 5 imm16 OR 8"
  from unpack_pack [OF insn_range [OF assms]]
  obtain bs where "pack_le_I ?insn = Inr bs" "unpack_le_I bs = Inr ?insn" by blast
  moreover have "is_movz_x8 ?insn"
    unfolding is_movz_x8_def using assms by (rule insn_test)
  moreover note insn_imm [OF assms]
  ultimately show ?thesis
    unfolding encode_movz_x8_def Let_def by blast
qed

lemma TARGETS_words:
  "TARGETS bs = Some e \<Longrightarrow> \<exists>insn. unpack_le_I bs = Inr insn \<and> is_movz_x8 insn"
  by (auto simp: TARGETS_def is_movz_x8_def split: if_splits)

lemma patch_buffer_post_trace:
  "\<exists>st. patch_buffer b = Inr st \<and>
     scan_post TARGETS (offsets b) \<lparr>data = b, total_patches = 0, trace = []\<rparr> st (trace st)"
proof -
  from patch_buffer_post [of b] obtain st ms where
    "patch_buffer b = Inr st"
    "scan_post TARGETS (offsets b) \<lparr>data = b, total_patches = 0, trace = []\<rparr> st ms"
    by blast
  moreover from this(2) have "trace st = ms" by (simp add: scan_post_def)
  ultimately show ?thesis by blast
qed

section \<open>A trap behind an anchor and filler words\<close>

lemma unpack_Inr_len: "unpack_le_I bs = Inr v \<Longrightarrow> length bs = 4"
  by (cases bs rule: unpack_le_I.cases) auto

lemma filler_len: "filler w \<Longrightarrow> length w = 4"
  by (auto simp: filler_def split: sum.splits dest: unpack_Inr_len)

lemma filler_not_target: "filler w \<Longrightarrow> TARGETS w = None"
proof (cases "TARGETS w")
  case (Some e)
  assume "filler w"
  with TARGETS_words [OF Some] show ?thesis by (auto simp: filler_def)
qed simp

lemma range4_upto:
  "a \<le> n + 1 \<Longrightarrow> range4 (4 * a) (4 * n + 1) = map (\<lambda>j. 4 * j) [a ..< n + 1]"
proof (induction "n + 1 - a" arbitrary: a)
  case 0
  then have "a = n + 1" by simp
  then show ?case by (subst range4.simps) simp
next
  case (Suc k)
  then have lt: "a < n + 1" by simp
  with Suc have "range4 (4 * (a + 1)) (4 * n + 1) = map (\<lambda>j. 4 * j) [a + 1 ..< n + 1]"
    by (intro Suc.hyps) simp_all
  moreover have "range4 (4 * a) (4 * n + 1) = 4 * a # range4 (4 * (a + 1)) (4 * n + 1)"
    using lt by (subst range4.simps) (simp add: algebra_simps)
  moreover have "[a ..< n + 1] = a # [a + 1 ..< n + 1]"
    using lt by (simp add: upt_conv_Cons)
  ultimately show ?case by simp
qed

lemma scan_skip:
  "\<forall>x\<in>set offs. slice4 (data st) x \<noteq> SVC_0 \<Longrightarrow> scan tg (offs @ rest) st = scan tg rest st"
  by (induction offs) simp_all

lemma search_back_continue:
  assumes "\<forall>b\<in>set bs1. b * 4 \<le> offset \<and> tg (slice4 d (offset - b * 4)) = None \<and>
             (\<exists>insn. unpack_le_I (slice4 d (offset - b * 4)) = Inr insn \<and>
                \<not> is_movz_x8 insn \<and> \<not> is_branch insn)"
  shows "search_back tg d offset (bs1 @ bs2) = search_back tg d offset bs2"
  using assms by (induction bs1) (auto simp: Let_def)

lemma slice4_concat:
  "\<forall>w\<in>set ws. length w = 4 \<Longrightarrow> j < length ws \<Longrightarrow> slice4 (concat ws @ rest) (4 * j) = ws ! j"
proof (induction ws arbitrary: j)
  case Nil
  then show ?case by simp
next
  case (Cons w ws)
  show ?case
  proof (cases j)
    case 0
    with Cons.prems show ?thesis by (simp add: slice4_def)
  next
    case (Suc i)
    with Cons.prems have "slice4 (concat ws @ rest) (4 * i) = ws ! i"
      by (intro Cons.IH) simp_all
    with Suc Cons.prems show ?thesis by (simp add: slice4_def)
  qed
qed

lemma slice4_after_head:
  "length hd4 = 4 \<Longrightarrow> slice4 (hd4 @ rest) (4 + p) = slice4 rest p"
  by (simp add: slice4_def)

lemma slice4_head: "length hd4 = 4 \<Longrightarrow> slice4 (hd4 @ rest) 0 = hd4"
  by (simp add: slice4_def)

lemma length_concat4: "\<forall>w\<in>set ws. length w = 4 \<Longrightarrow> length (concat ws) = 4 * length ws"
  by (induction ws) simp_all


lemma TARGETS_of_table:
  "(nr, name) \<in> set BLOCKED_SYSCALLS \<Longrightarrow> encode_movz_x8 nr = Inr mov
     \<Longrightarrow> TARGETS mov = Some (nr, name) \<and> length mov = 4"
  by (auto simp: BLOCKED_SYSCALLS_def TARGETS_def encode_99 encode_293)

lemma search_back_fillers:
  assumes mov: "TARGETS mov = Some (nr, name)" "length mov = 4"
    and fill: "\<forall>w\<in>set ws. filler w"
    and bs2: "bs2 = (length ws + 1) # bs3"
  shows "search_back TARGETS (mov @ concat ws @ rest) (4 * (length ws + 1))
           ([1 ..< length ws + 1] @ bs2)
         = Inr (Some \<lparr>trap = 4 * (length ws + 1), anchor = 0, dist = length ws + 1,
                      sys_nr = nr, sys_name = name\<rparr>)"
proof -
  let ?k = "length ws" and ?buf = "mov @ concat ws @ rest"
  have len4: "\<forall>w\<in>set ws. length w = 4" using fill filler_len by blast
  have step: "b * 4 \<le> 4 * (?k + 1) \<and> TARGETS (slice4 ?buf (4 * (?k + 1) - b * 4)) = None \<and>
             (\<exists>insn. unpack_le_I (slice4 ?buf (4 * (?k + 1) - b * 4)) = Inr insn \<and>
                \<not> is_movz_x8 insn \<and> \<not> is_branch insn)"
    if "b \<in> set [1 ..< ?k + 1]" for b
  proof -
    from that have b: "1 \<le> b" "b \<le> ?k" by auto
    then have off: "4 * (?k + 1) - b * 4 = 4 + 4 * (?k - b)" by simp
    have "slice4 ?buf (4 + 4 * (?k - b)) = slice4 (concat ws @ rest) (4 * (?k - b))"
      using mov(2) by (rule slice4_after_head)
    also have "\<dots> = ws ! (?k - b)"
      using len4 b by (intro slice4_concat) simp_all
    finally have sl: "slice4 ?buf (4 * (?k + 1) - b * 4) = ws ! (?k - b)"
      by (simp only: off)
    have "ws ! (?k - b) \<in> set ws" using b by simp
    with fill have f: "filler (ws ! (?k - b))" by blast
    from f have "TARGETS (ws ! (?k - b)) = None" by (rule filler_not_target)
    moreover from f have "\<exists>insn. unpack_le_I (ws ! (?k - b)) = Inr insn \<and>
                \<not> is_movz_x8 insn \<and> \<not> is_branch insn"
      by (auto simp: filler_def split: sum.splits)
    ultimately show ?thesis using b by (simp only: sl) simp
  qed
  then have "search_back TARGETS ?buf (4 * (?k + 1)) ([1 ..< ?k + 1] @ bs2)
      = search_back TARGETS ?buf (4 * (?k + 1)) bs2"
    by (intro search_back_continue) blast
  also have "\<dots> = Inr (Some \<lparr>trap = 4 * (?k + 1), anchor = 0, dist = ?k + 1,
                      sys_nr = nr, sys_name = name\<rparr>)"
    using mov by (simp add: bs2 slice4_head Let_def)
  finally show ?thesis .
qed

lemma correlation_core:
  assumes mov: "TARGETS mov = Some (nr, name)" "length mov = 4"
    and k: "length ws \<le> 15"
    and fill: "\<forall>w\<in>set ws. filler w"
  shows "patch_buffer (mov @ concat ws @ SVC_0) =
     Inr \<lparr>data = mov @ concat ws @ MOVN_X0_37, total_patches = 1,
          trace = [\<lparr>trap = 4 * (length ws + 1), anchor = 0, dist = length ws + 1,
                    sys_nr = nr, sys_name = name\<rparr>]\<rparr>"
proof -
  let ?k = "length ws" and ?buf = "mov @ concat ws @ SVC_0"
  let ?st0 = "\<lparr>data = ?buf, total_patches = 0, trace = []\<rparr>"
  let ?m = "\<lparr>trap = 4 * (?k + 1), anchor = 0, dist = ?k + 1, sys_nr = nr, sys_name = name\<rparr>"
  have len4: "\<forall>w\<in>set ws. length w = 4" using fill filler_len by blast
  have lc: "length (concat ws) = 4 * ?k" using len4 by (rule length_concat4)
  have lb: "length ?buf = 4 * (?k + 2)" using mov(2) lc by (simp add: SVC_0_len)
  have "length ?buf - 3 = 4 * (?k + 1) + 1" by (simp only: lb) simp
  then have "offsets ?buf = range4 (4 * 1) (4 * (?k + 1) + 1)"
    by (simp only: offsets_def) simp
  also have "\<dots> = map (\<lambda>j. 4 * j) [1 ..< ?k + 1 + 1]"
    by (rule range4_upto) simp
  also have "\<dots> = map (\<lambda>j. 4 * j) [1 ..< ?k + 1] @ [4 * (?k + 1)]"
    by simp
  finally have offs: "offsets ?buf = map (\<lambda>j. 4 * j) [1 ..< ?k + 1] @ [4 * (?k + 1)]" .
  have skip: "\<forall>x\<in>set (map (\<lambda>j. 4 * j) [1 ..< ?k + 1]). slice4 (data ?st0) x \<noteq> SVC_0"
  proof
    fix x assume "x \<in> set (map (\<lambda>j. 4 * j) [1 ..< ?k + 1])"
    then obtain j where j: "x = 4 * j" "1 \<le> j" "j \<le> ?k" by auto
    then have x: "x = 4 + 4 * (j - 1)" by simp
    have "slice4 ?buf (4 + 4 * (j - 1)) = slice4 (concat ws @ SVC_0) (4 * (j - 1))"
      using mov(2) by (rule slice4_after_head)
    also have "\<dots> = ws ! (j - 1)"
      using len4 j by (intro slice4_concat) simp_all
    finally have "slice4 ?buf x = ws ! (j - 1)" by (simp only: x)
    moreover have "ws ! (j - 1) \<in> set ws" using j by simp
    ultimately show "slice4 (data ?st0) x \<noteq> SVC_0"
      using fill by (auto simp: filler_def)
  qed
  have trap_word: "slice4 ?buf (4 * (?k + 1)) = SVC_0"
    using mov(2) lc by (simp add: slice4_def SVC_0_len)
  have e: "LOOKBACK + 1 = (?k + 1) + (LOOKBACK - ?k)"
    using k by (simp add: LOOKBACK_def)
  have "[1 ..< (?k + 1) + (LOOKBACK - ?k)]
      = [1 ..< ?k + 1] @ [?k + 1 ..< (?k + 1) + (LOOKBACK - ?k)]"
    by (rule upt_add_eq_append) simp
  then have "[1 ..< LOOKBACK + 1] = [1 ..< ?k + 1] @ [?k + 1 ..< LOOKBACK + 1]"
    by (simp only: e [symmetric])
  also have "[?k + 1 ..< LOOKBACK + 1] = (?k + 1) # [Suc (?k + 1) ..< LOOKBACK + 1]"
    by (rule upt_conv_Cons) (use k in \<open>simp add: LOOKBACK_def\<close>)
  finally have backs:
    "[1 ..< LOOKBACK + 1] = [1 ..< ?k + 1] @ (?k + 1) # [Suc (?k + 1) ..< LOOKBACK + 1]" .
  have found: "search_back TARGETS ?buf (4 * (?k + 1)) [1 ..< LOOKBACK + 1] = Inr (Some ?m)"
    unfolding backs using mov fill by (rule search_back_fillers) simp
  have written: "set_slice4 ?buf (4 * (?k + 1)) MOVN_X0_37 = mov @ concat ws @ MOVN_X0_37"
    using mov(2) lc by (simp add: set_slice4_def SVC_0_len)
  have "patch_buffer ?buf = scan TARGETS [4 * (?k + 1)] ?st0"
    unfolding patch_buffer_scan offs using skip by (rule scan_skip)
  also have "\<dots> = Inr \<lparr>data = mov @ concat ws @ MOVN_X0_37, total_patches = 1, trace = [?m]\<rparr>"
    using trap_word found written by simp
  finally show ?thesis .
qed

text \<open>
  A word that ends the backward search, put among filler words between an anchor and a
  trap: nothing is patched.
\<close>

lemma visit_word:
  assumes "length mov = 4" "\<forall>w\<in>set ws. length w = 4" "1 \<le> b" "b \<le> length ws"
  shows "slice4 (mov @ concat ws @ rest) (4 * (length ws + 1) - b * 4) = ws ! (length ws - b)"
proof -
  from assms(3,4) have off: "4 * (length ws + 1) - b * 4 = 4 + 4 * (length ws - b)" by simp
  have "slice4 (mov @ concat ws @ rest) (4 + 4 * (length ws - b))
      = slice4 (concat ws @ rest) (4 * (length ws - b))"
    using assms(1) by (rule slice4_after_head)
  also have "\<dots> = ws ! (length ws - b)"
    using assms(2-4) by (intro slice4_concat) simp_all
  finally show ?thesis by (simp only: off)
qed

lemma SVC_not_stop:
  "unpack_le_I SVC_0 = Inr 0xD4000001" "\<not> is_movz_x8 0xD4000001" "\<not> is_branch 0xD4000001"
  by (simp_all add: SVC_0_def is_movz_x8_def is_branch_def)

lemma search_back_stop:
  "bk * 4 \<le> offset \<Longrightarrow> tg (slice4 d (offset - bk * 4)) = None
     \<Longrightarrow> unpack_le_I (slice4 d (offset - bk * 4)) = Inr insn
     \<Longrightarrow> is_movz_x8 insn \<or> is_branch insn
     \<Longrightarrow> search_back tg d offset (bk # backs) = Inr None"
  by (auto simp: Let_def)

lemma stop_word_blocks:
  assumes mov: "length mov = 4"
    and fill1: "\<forall>w\<in>set ws1. filler w" and fill2: "\<forall>w\<in>set ws2. filler w"
    and stop: "TARGETS stop = None" "unpack_le_I stop = Inr insn"
      "is_movz_x8 insn \<or> is_branch insn"
  shows "patch_buffer (mov @ concat (ws1 @ [stop] @ ws2) @ SVC_0) =
     Inr \<lparr>data = mov @ concat (ws1 @ [stop] @ ws2) @ SVC_0, total_patches = 0, trace = []\<rparr>"
proof -
  define ws where "ws = ws1 @ [stop] @ ws2"
  define k where "k = length ws"
  let ?k2 = "length ws2"
  let ?buf = "mov @ concat ws @ SVC_0"
  let ?st0 = "\<lparr>data = ?buf, total_patches = 0, trace = []\<rparr>"
  let ?off = "4 * (k + 1)"
  have k: "k = length ws1 + 1 + ?k2" by (simp add: k_def ws_def)
  have stop_len: "length stop = 4" using stop(2) by (rule unpack_Inr_len)
  have stop_svc: "stop \<noteq> SVC_0" using stop(2,3) SVC_not_stop by auto
  have len4: "\<forall>w\<in>set ws. length w = 4"
    using fill1 fill2 filler_len stop_len by (auto simp: ws_def)
  have nsvc: "\<forall>w\<in>set ws. w \<noteq> SVC_0"
    using fill1 fill2 stop_svc by (auto simp: filler_def ws_def)
  have lc: "length (concat ws) = 4 * k" unfolding k_def using len4 by (rule length_concat4)
  have lb: "length ?buf = 4 * (k + 2)" using mov lc by (simp only: length_append SVC_0_len) simp
  have "length ?buf - 3 = 4 * (k + 1) + 1" by (simp only: lb) simp
  then have "offsets ?buf = range4 (4 * 1) (4 * (k + 1) + 1)"
    by (simp only: offsets_def) simp
  also have "\<dots> = map (\<lambda>j. 4 * j) [1 ..< k + 1 + 1]"
    by (rule range4_upto) simp
  also have "\<dots> = map (\<lambda>j. 4 * j) [1 ..< k + 1] @ [?off]"
    by simp
  finally have offs: "offsets ?buf = map (\<lambda>j. 4 * j) [1 ..< k + 1] @ [?off]" .
  have skip: "\<forall>x\<in>set (map (\<lambda>j. 4 * j) [1 ..< k + 1]). slice4 (data ?st0) x \<noteq> SVC_0"
  proof
    fix x assume "x \<in> set (map (\<lambda>j. 4 * j) [1 ..< k + 1])"
    then obtain j where j: "x = 4 * j" "1 \<le> j" "j \<le> length ws" by (auto simp: k_def)
    then have x: "x = 4 + 4 * (j - 1)" by simp
    have "slice4 ?buf (4 + 4 * (j - 1)) = slice4 (concat ws @ SVC_0) (4 * (j - 1))"
      using mov by (rule slice4_after_head)
    also have "\<dots> = ws ! (j - 1)"
      using len4 j by (intro slice4_concat) simp_all
    finally have "slice4 ?buf x = ws ! (j - 1)" by (simp only: x)
    moreover have "ws ! (j - 1) \<in> set ws" using j by (intro nth_mem) simp
    ultimately show "slice4 (data ?st0) x \<noteq> SVC_0"
      using nsvc by simp
  qed
  have cont: "b * 4 \<le> ?off \<and> TARGETS (slice4 ?buf (?off - b * 4)) = None \<and>
             (\<exists>insn. unpack_le_I (slice4 ?buf (?off - b * 4)) = Inr insn \<and>
                \<not> is_movz_x8 insn \<and> \<not> is_branch insn)"
    if b: "1 \<le> b" "b \<le> ?k2" for b
  proof -
    from b have bk: "b \<le> length ws" by (simp add: ws_def)
    have "slice4 ?buf (?off - b * 4) = ws ! (k - b)"
      unfolding k_def using mov len4 b(1) bk by (rule visit_word)
    also have "\<dots> = ws2 ! (?k2 - b)"
    proof -
      have "k - b = length ws1 + Suc (?k2 - b)" using b k by simp
      then show ?thesis by (simp only: ws_def nth_append_length_plus) simp
    qed
    finally have sl: "slice4 ?buf (?off - b * 4) = ws2 ! (?k2 - b)" .
    have "ws2 ! (?k2 - b) \<in> set ws2" using b by (intro nth_mem) simp
    with fill2 have f: "filler (ws2 ! (?k2 - b))" by blast
    from f have "TARGETS (ws2 ! (?k2 - b)) = None" by (rule filler_not_target)
    moreover from f have "\<exists>insn. unpack_le_I (ws2 ! (?k2 - b)) = Inr insn \<and>
                \<not> is_movz_x8 insn \<and> \<not> is_branch insn"
      by (auto simp: filler_def split: sum.splits)
    moreover have "b * 4 \<le> ?off" using bk by (simp add: k_def)
    ultimately show ?thesis unfolding sl by blast
  qed
  have at_stop: "slice4 ?buf (?off - (?k2 + 1) * 4) = stop"
  proof -
    have "slice4 ?buf (?off - (?k2 + 1) * 4) = ws ! (k - (?k2 + 1))"
      unfolding k_def using mov len4 by (rule visit_word) (simp_all add: ws_def)
    also have "\<dots> = stop"
    proof -
      have "k - (?k2 + 1) = length ws1" using k by simp
      then show ?thesis by (simp only: ws_def nth_append_length) simp
    qed
    finally show ?thesis .
  qed
  have none: "search_back TARGETS ?buf ?off [1 ..< LOOKBACK + 1] = Inr None"
  proof (cases "?k2 + 1 \<le> LOOKBACK")
    case True
    have e: "LOOKBACK + 1 = (?k2 + 1) + (LOOKBACK - ?k2)" using True by simp
    have "[1 ..< (?k2 + 1) + (LOOKBACK - ?k2)]
        = [1 ..< ?k2 + 1] @ [?k2 + 1 ..< (?k2 + 1) + (LOOKBACK - ?k2)]"
      by (rule upt_add_eq_append) simp
    then have "[1 ..< LOOKBACK + 1] = [1 ..< ?k2 + 1] @ [?k2 + 1 ..< LOOKBACK + 1]"
      by (simp only: e [symmetric])
    also have "[?k2 + 1 ..< LOOKBACK + 1] = (?k2 + 1) # [Suc (?k2 + 1) ..< LOOKBACK + 1]"
      by (rule upt_conv_Cons) (use True in simp)
    finally have backs:
      "[1 ..< LOOKBACK + 1] = [1 ..< ?k2 + 1] @ (?k2 + 1) # [Suc (?k2 + 1) ..< LOOKBACK + 1]" .
    have "search_back TARGETS ?buf ?off [1 ..< LOOKBACK + 1]
        = search_back TARGETS ?buf ?off ((?k2 + 1) # [Suc (?k2 + 1) ..< LOOKBACK + 1])"
      unfolding backs by (rule search_back_continue) (use cont in auto)
    also have "\<dots> = Inr None"
    proof (rule search_back_stop)
      show "(?k2 + 1) * 4 \<le> ?off" using k by simp
      show "TARGETS (slice4 ?buf (?off - (?k2 + 1) * 4)) = None"
        unfolding at_stop by (rule stop(1))
      show "unpack_le_I (slice4 ?buf (?off - (?k2 + 1) * 4)) = Inr insn"
        unfolding at_stop by (rule stop(2))
      show "is_movz_x8 insn \<or> is_branch insn" by (rule stop(3))
    qed
    finally show ?thesis .
  next
    case False
    have "search_back TARGETS ?buf ?off ([1 ..< LOOKBACK + 1] @ [])
        = search_back TARGETS ?buf ?off []"
      by (rule search_back_continue) (use cont False in auto)
    then show ?thesis by simp
  qed
  have trap_word: "slice4 ?buf ?off = SVC_0"
    using mov lc by (simp only: slice4_def) (simp add: SVC_0_len)
  have "patch_buffer ?buf = scan TARGETS [?off] ?st0"
    unfolding patch_buffer_scan offs using skip by (rule scan_skip)
  also have "\<dots> = Inr ?st0"
    using trap_word none by simp
  finally show ?thesis by (simp only: ws_def)
qed

section \<open>Properties of the instruction patcher\<close>

text \<open>
  C5. The transform on the buffer is idempotent: patching the patched buffer returns it
  unchanged, with no trace entry and a patch count of 0. The word written,
  \<open>movn x0, #37\<close>, is not \<open>svc #0\<close>, is not in the table, and passes neither of the
  two break tests of the backward search.
\<close>

theorem patch_buffer_idempotent:
  "\<exists>st. patch_buffer b = Inr st \<and>
        patch_buffer (data st) = Inr \<lparr>data = data st, total_patches = 0, trace = []\<rparr> \<and>
        MOVN_X0_37 \<noteq> SVC_0 \<and>
        (\<exists>tg. build_targets BLOCKED_SYSCALLS Map.empty = Inr tg \<and> tg MOVN_X0_37 = None) \<and>
        unpack_le_I MOVN_X0_37 = Inr 0x928004A0 \<and>
        \<not> is_movz_x8 0x928004A0 \<and> \<not> is_branch 0x928004A0"
proof -
  obtain st where st: "patch_buffer b = Inr st"
    using patch_buffer_post by blast
  then have sc: "scan TARGETS (offsets b) \<lparr>data = b, total_patches = 0, trace = []\<rparr> = Inr st"
    by (simp add: patch_buffer_scan)
  from scan_length [OF sc] have "offsets (data st) = offsets b"
    by (intro offsets_cong) simp
  moreover have "scan TARGETS (offsets b) \<lparr>data = data st, total_patches = 0, trace = []\<rparr>
      = Inr \<lparr>data = data st, total_patches = 0, trace = []\<rparr>"
    using offsets_sorted sc by (rule scan_idem) simp
  ultimately have twice:
    "patch_buffer (data st) = Inr \<lparr>data = data st, total_patches = 0, trace = []\<rparr>"
    by (simp add: patch_buffer_scan)
  have word: "unpack_le_I MOVN_X0_37 = Inr 0x928004A0"
    by (simp add: MOVN_X0_37_def)
  have tests: "\<not> is_movz_x8 0x928004A0" "\<not> is_branch 0x928004A0"
    by (simp_all add: is_movz_x8_def is_branch_def)
  have table: "\<exists>tg. build_targets BLOCKED_SYSCALLS Map.empty = Inr tg \<and> tg MOVN_X0_37 = None"
    using build_targets_table TARGETS_MOVN by blast
  from st twice word tests MOVN_neq_SVC table show ?thesis by blast
qed

theorem patch_buffer_idempotent_witness:
  "patch_buffer [0x68, 0x0c, 0x80, 0xd2, 0x01, 0x00, 0x00, 0xd4] =
     Inr \<lparr>data = [0x68, 0x0c, 0x80, 0xd2, 0xa0, 0x04, 0x80, 0x92], total_patches = 1,
          trace = [\<lparr>trap = 4, anchor = 0, dist = 1, sys_nr = 99,
                    sys_name = ''set_robust_list''\<rparr>]\<rparr> \<and>
   patch_buffer [0x68, 0x0c, 0x80, 0xd2, 0xa0, 0x04, 0x80, 0x92] =
     Inr \<lparr>data = [0x68, 0x0c, 0x80, 0xd2, 0xa0, 0x04, 0x80, 0x92], total_patches = 0,
          trace = []\<rparr>"
proof -
  have first: "patch_buffer [0x68, 0x0c, 0x80, 0xd2, 0x01, 0x00, 0x00, 0xd4] =
     Inr \<lparr>data = [0x68, 0x0c, 0x80, 0xd2, 0xa0, 0x04, 0x80, 0x92], total_patches = 1,
          trace = [\<lparr>trap = 4, anchor = 0, dist = 1, sys_nr = 99,
                    sys_name = ''set_robust_list''\<rparr>]\<rparr>"
    by code_simp
  with patch_buffer_idempotent [of "[0x68, 0x0c, 0x80, 0xd2, 0x01, 0x00, 0x00, 0xd4]"]
  show ?thesis by auto
qed

text \<open>
  C6. The patched buffer has the length of the input; every byte outside the four-byte
  words at the trap offsets of the trace is the byte of the input; at each trap offset
  the input held \<open>svc #0\<close> and the output holds \<open>movn x0, #37\<close>; the word at each
  anchor offset lies before its trap and is the word of the input.
\<close>

theorem patch_buffer_frame:
  "\<exists>st. patch_buffer b = Inr st \<and> length (data st) = length b \<and>
     (\<forall>i<length b. (\<forall>m\<in>set (trace st). i < trap m \<or> trap m + 4 \<le> i) \<longrightarrow>
        data st ! i = b ! i) \<and>
     (\<forall>m\<in>set (trace st).
        slice4 b (trap m) = SVC_0 \<and> slice4 (data st) (trap m) = MOVN_X0_37 \<and>
        anchor m + 4 \<le> trap m \<and> slice4 (data st) (anchor m) = slice4 b (anchor m))"
proof -
  from patch_buffer_post_trace [of b] obtain st where st: "patch_buffer b = Inr st"
    and post: "scan_post TARGETS (offsets b) \<lparr>data = b, total_patches = 0, trace = []\<rparr>
                 st (trace st)"
    by blast
  from post have len: "length (data st) = length b"
    by (simp add: scan_post_def)
  from post have frame: "\<forall>i<length b. (\<forall>m\<in>set (trace st). i < trap m \<or> trap m + 4 \<le> i) \<longrightarrow>
        data st ! i = b ! i"
    by (simp add: scan_post_def)
  have each: "slice4 b (trap m) = SVC_0 \<and> slice4 (data st) (trap m) = MOVN_X0_37 \<and>
        anchor m + 4 \<le> trap m \<and> slice4 (data st) (anchor m) = slice4 b (anchor m)"
    if "m \<in> set (trace st)" for m
  proof -
    from post that have "match_ok TARGETS (offsets b) b (data st) m"
      by (simp add: scan_post_def)
    then show ?thesis by (auto simp: match_ok_def)
  qed
  from st len frame each show ?thesis by blast
qed

theorem patch_buffer_frame_witness:
  "patch_buffer [0xa8, 0x24, 0x80, 0xd2, 0x1f, 0x20, 0x03, 0xd5, 0x1f, 0x20, 0x03, 0xd5,
       0x1f, 0x20, 0x03, 0xd5, 0x01, 0x00, 0x00, 0xd4, 0xde, 0xad, 0xbe] =
     Inr \<lparr>data = [0xa8, 0x24, 0x80, 0xd2, 0x1f, 0x20, 0x03, 0xd5, 0x1f, 0x20, 0x03, 0xd5,
            0x1f, 0x20, 0x03, 0xd5, 0xa0, 0x04, 0x80, 0x92, 0xde, 0xad, 0xbe],
          total_patches = 1,
          trace = [\<lparr>trap = 16, anchor = 0, dist = 4, sys_nr = 293, sys_name = ''rseq''\<rparr>]\<rparr> \<and>
   slice4 [0xa8, 0x24, 0x80, 0xd2, 0x1f, 0x20, 0x03, 0xd5, 0x1f, 0x20, 0x03, 0xd5,
       0x1f, 0x20, 0x03, 0xd5, 0x01, 0x00, 0x00, 0xd4, 0xde, 0xad, 0xbe] 16 = SVC_0"
proof -
  let ?b = "[0xa8, 0x24, 0x80, 0xd2, 0x1f, 0x20, 0x03, 0xd5, 0x1f, 0x20, 0x03, 0xd5,
       0x1f, 0x20, 0x03, 0xd5, 0x01, 0x00, 0x00, 0xd4, 0xde, 0xad, 0xbe] :: buffer"
  have run: "patch_buffer ?b =
     Inr \<lparr>data = [0xa8, 0x24, 0x80, 0xd2, 0x1f, 0x20, 0x03, 0xd5, 0x1f, 0x20, 0x03, 0xd5,
            0x1f, 0x20, 0x03, 0xd5, 0xa0, 0x04, 0x80, 0x92, 0xde, 0xad, 0xbe],
          total_patches = 1,
          trace = [\<lparr>trap = 16, anchor = 0, dist = 4, sys_nr = 293, sys_name = ''rseq''\<rparr>]\<rparr>"
    by code_simp
  from patch_buffer_frame [of ?b] run show ?thesis by simp
qed

text \<open>
  C7, as amended. One scan never patches the same trap twice. Every trace entry has its
  trap \<open>dist\<close> instructions after its anchor, with \<open>dist\<close> between 1 and
  \<open>LOOKBACK\<close>; the entries that name one anchor have pairwise different distances,
  so an anchor is shared by at most \<open>LOOKBACK\<close> traps.
\<close>

theorem anchor_shared_by_at_most_LOOKBACK_traps:
  "\<exists>st. patch_buffer b = Inr st \<and> distinct (map trap (trace st)) \<and>
     (\<forall>m\<in>set (trace st).
        1 \<le> dist m \<and> dist m \<le> LOOKBACK \<and> trap m = anchor m + 4 * dist m) \<and>
     (\<forall>a. distinct (map dist (filter (\<lambda>m. anchor m = a) (trace st))) \<and>
          length (filter (\<lambda>m. anchor m = a) (trace st)) \<le> LOOKBACK)"
proof -
  from patch_buffer_post_trace [of b] obtain st where st: "patch_buffer b = Inr st"
    and post: "scan_post TARGETS (offsets b) \<lparr>data = b, total_patches = 0, trace = []\<rparr>
                 st (trace st)"
    by blast
  from post have "sorted_wrt (<) (map trap (trace st))"
    by (simp add: scan_post_def)
  then have dis: "distinct (map trap (trace st))"
    by (simp add: strict_sorted_iff)
  have each: "1 \<le> dist m \<and> dist m \<le> LOOKBACK \<and> trap m = anchor m + 4 * dist m"
    if "m \<in> set (trace st)" for m
  proof -
    from that post have "match_ok TARGETS (offsets b) b (data st) m"
      by (simp add: scan_post_def)
    then show ?thesis by (auto simp: match_ok_def)
  qed
  have bound: "distinct (map dist (filter (\<lambda>m. anchor m = a) (trace st))) \<and>
      length (filter (\<lambda>m. anchor m = a) (trace st)) \<le> LOOKBACK" for a
  proof -
    let ?fs = "filter (\<lambda>m. anchor m = a) (trace st)"
    have ok: "1 \<le> dist m \<and> dist m \<le> LOOKBACK \<and> trap m = a + 4 * dist m" if "m \<in> set ?fs" for m
      using each [of m] that by auto
    have "distinct (map trap ?fs)" using dis by (simp add: distinct_map_filter)
    moreover have "map trap ?fs = map (\<lambda>d. a + 4 * d) (map dist ?fs)"
      using ok by simp
    ultimately have dd: "distinct (map dist ?fs)" by (simp add: distinct_map del: map_map)
    then have "length ?fs = card (set (map dist ?fs))"
      by (metis distinct_card length_map)
    also have "\<dots> \<le> card {1 .. LOOKBACK}"
      using ok by (intro card_mono) auto
    finally have "length ?fs \<le> LOOKBACK" by simp
    with dd show ?thesis by blast
  qed
  from st dis each bound show ?thesis by blast
qed

theorem anchor_shared_by_at_most_LOOKBACK_traps_witness:
  "\<exists>st. patch_buffer ([0x68, 0x0c, 0x80, 0xd2] @ concat (replicate 16 SVC_0)) = Inr st \<and>
     map trap (trace st) = [4, 8, 12, 16, 20, 24, 28, 32, 36, 40, 44, 48, 52, 56, 60, 64] \<and>
     map dist (trace st) = [1, 2, 3, 4, 5, 6, 7, 8, 9, 10, 11, 12, 13, 14, 15, 16] \<and>
     map anchor (trace st) = replicate 16 0 \<and>
     distinct (map dist (filter (\<lambda>m. anchor m = 0) (trace st))) \<and>
     length (filter (\<lambda>m. anchor m = 0) (trace st)) = 16 \<and>
     length (filter (\<lambda>m. anchor m = 0) (trace st)) \<le> LOOKBACK"
proof -
  let ?b = "[0x68, 0x0c, 0x80, 0xd2] @ concat (replicate 16 SVC_0)"
  from anchor_shared_by_at_most_LOOKBACK_traps [of ?b] obtain st
    where st: "patch_buffer ?b = Inr st"
      and dd: "distinct (map dist (filter (\<lambda>m. anchor m = 0) (trace st)))"
      and le: "length (filter (\<lambda>m. anchor m = 0) (trace st)) \<le> LOOKBACK"
    by blast
  have "(case patch_buffer ?b of Inl e \<Rightarrow> [] | Inr s \<Rightarrow> map trap (trace s))
      = [4, 8, 12, 16, 20, 24, 28, 32, 36, 40, 44, 48, 52, 56, 60, 64]"
    by code_simp
  moreover have "(case patch_buffer ?b of Inl e \<Rightarrow> [] | Inr s \<Rightarrow> map dist (trace s))
      = [1, 2, 3, 4, 5, 6, 7, 8, 9, 10, 11, 12, 13, 14, 15, 16]"
    by code_simp
  moreover have "(case patch_buffer ?b of Inl e \<Rightarrow> [] | Inr s \<Rightarrow> map anchor (trace s))
      = replicate 16 0"
    by code_simp
  ultimately have tr: "map trap (trace st) = [4, 8, 12, 16, 20, 24, 28, 32, 36, 40, 44, 48, 52, 56, 60, 64]"
    and di: "map dist (trace st) = [1, 2, 3, 4, 5, 6, 7, 8, 9, 10, 11, 12, 13, 14, 15, 16]"
    and an: "map anchor (trace st) = replicate 16 0"
    using st by simp_all
  have "length (filter (\<lambda>m. anchor m = 0) (trace st))
      = length (filter (\<lambda>a. a = 0) (map anchor (trace st)))"
    by (simp add: filter_map comp_def)
  then have n: "length (filter (\<lambda>m. anchor m = 0) (trace st)) = 16"
    by (simp add: an)
  from st tr di an dd n le show ?thesis by (intro exI [of _ st] conjI)
qed

text \<open>
  C7 as stated fails: after \<open>mov x8, #293; svc #0; nop; svc #0\<close> both traps are
  patched, and both trace entries name the anchor at offset 0.
\<close>

theorem anchor_shared_counterexample:
  "patch_buffer [0xa8, 0x24, 0x80, 0xd2, 0x01, 0x00, 0x00, 0xd4, 0x1f, 0x20, 0x03, 0xd5,
       0x01, 0x00, 0x00, 0xd4] =
     Inr \<lparr>data = [0xa8, 0x24, 0x80, 0xd2, 0xa0, 0x04, 0x80, 0x92, 0x1f, 0x20, 0x03, 0xd5,
            0xa0, 0x04, 0x80, 0x92],
          total_patches = 2,
          trace = [\<lparr>trap = 4, anchor = 0, dist = 1, sys_nr = 293, sys_name = ''rseq''\<rparr>,
                   \<lparr>trap = 12, anchor = 0, dist = 3, sys_nr = 293, sys_name = ''rseq''\<rparr>]\<rparr>"
  by code_simp

text \<open>
  C8. When the scan of a file's contents leaves an empty trace, \<open>patch_binary\<close>
  returns \<open>False\<close> and the store is the store it was given: nothing is written back
  and no backup is made.
\<close>

theorem zero_matches_no_write:
  assumes "files filepath = Some original" "patch_buffer original = Inr st" "trace st = []"
  shows "patch_binary files filepath = (files, Inr False)"
proof -
  from patch_buffer_post_trace [of original] assms(2)
  have "scan_post TARGETS (offsets original) \<lparr>data = original, total_patches = 0, trace = []\<rparr>
          st (trace st)"
    by simp
  with assms(3) have "total_patches st = 0" by (simp add: scan_post_def)
  with assms(1,2) show ?thesis by (simp add: patch_binary_def)
qed

theorem zero_matches_no_write_witness:
  "[''libc.so.6'' \<mapsto> [0x1f, 0x20, 0x03, 0xd5, 0x01, 0x00, 0x00, 0xd4]] ''libc.so.6''
      = Some [0x1f, 0x20, 0x03, 0xd5, 0x01, 0x00, 0x00, 0xd4] \<and>
   patch_buffer [0x1f, 0x20, 0x03, 0xd5, 0x01, 0x00, 0x00, 0xd4] =
     Inr \<lparr>data = [0x1f, 0x20, 0x03, 0xd5, 0x01, 0x00, 0x00, 0xd4], total_patches = 0,
          trace = []\<rparr> \<and>
   patch_binary [''libc.so.6'' \<mapsto> [0x1f, 0x20, 0x03, 0xd5, 0x01, 0x00, 0x00, 0xd4]] ''libc.so.6''
     = ([''libc.so.6'' \<mapsto> [0x1f, 0x20, 0x03, 0xd5, 0x01, 0x00, 0x00, 0xd4]], Inr False)"
proof -
  have run: "patch_buffer [0x1f, 0x20, 0x03, 0xd5, 0x01, 0x00, 0x00, 0xd4] =
     Inr \<lparr>data = [0x1f, 0x20, 0x03, 0xd5, 0x01, 0x00, 0x00, 0xd4], total_patches = 0,
          trace = []\<rparr>"
    by code_simp
  from zero_matches_no_write [OF _ run, of "[''libc.so.6'' \<mapsto> [0x1f, 0x20, 0x03, 0xd5, 0x01, 0x00, 0x00, 0xd4]]" "''libc.so.6''"] run
  show ?thesis by simp
qed

text \<open>
  C10. For a 16-bit immediate, \<open>encode_movz_x8\<close> returns four bytes whose word passes
  the mask test for a load into register 8 and carries the immediate in bits 5 to 20.
  In the backward search such a word is a match when the table holds it, because the
  table is consulted first, and ends the search when the table does not. Every key of
  the table built from \<open>BLOCKED_SYSCALLS\<close> passes the mask test.
\<close>

theorem encode_movz_x8_is_load:
  assumes "0 \<le> imm16" "imm16 < 2 ^ 16"
  shows "\<exists>bs insn. encode_movz_x8 imm16 = Inr bs \<and> unpack_le_I bs = Inr insn \<and>
           is_movz_x8 insn \<and> drop_bit 5 insn AND 0xFFFF = imm16 \<and>
           (\<forall>tg dat offset bk backs nr name.
              bk * 4 \<le> offset \<and> slice4 dat (offset - bk * 4) = bs \<and> tg bs = Some (nr, name) \<longrightarrow>
              search_back tg dat offset (bk # backs) =
                Inr (Some \<lparr>trap = offset, anchor = offset - bk * 4, dist = bk,
                           sys_nr = nr, sys_name = name\<rparr>)) \<and>
           (\<forall>tg dat offset bk backs.
              bk * 4 \<le> offset \<and> slice4 dat (offset - bk * 4) = bs \<and> tg bs = None \<longrightarrow>
              search_back tg dat offset (bk # backs) = Inr None) \<and>
           (\<exists>tg. build_targets BLOCKED_SYSCALLS Map.empty = Inr tg \<and>
              (\<forall>w e. tg w = Some e \<longrightarrow> (\<exists>i. unpack_le_I w = Inr i \<and> is_movz_x8 i)))"
proof -
  from encode_movz_x8_word [OF assms] obtain bs insn
    where e: "encode_movz_x8 imm16 = Inr bs" "unpack_le_I bs = Inr insn"
      "is_movz_x8 insn" "drop_bit 5 insn AND 0xFFFF = imm16"
    by blast
  have hit: "search_back tg dat offset (bk # backs) =
      Inr (Some \<lparr>trap = offset, anchor = offset - bk * 4, dist = bk,
                 sys_nr = nr, sys_name = name\<rparr>)"
    if "bk * 4 \<le> offset" "slice4 dat (offset - bk * 4) = bs" "tg bs = Some (nr, name)"
    for tg dat offset bk backs nr name
    using that by (simp add: Let_def)
  have stop: "search_back tg dat offset (bk # backs) = Inr None"
    if "bk * 4 \<le> offset" "slice4 dat (offset - bk * 4) = bs" "tg bs = None"
    for tg dat offset bk backs
    using that e(2,3) by (simp add: Let_def)
  have table: "\<exists>tg. build_targets BLOCKED_SYSCALLS Map.empty = Inr tg \<and>
              (\<forall>w e. tg w = Some e \<longrightarrow> (\<exists>i. unpack_le_I w = Inr i \<and> is_movz_x8 i))"
    using build_targets_table TARGETS_words by blast
  from e hit stop table show ?thesis by blast
qed

theorem encode_movz_x8_is_load_witness:
  "(0::int) \<le> 99 \<and> (99::int) < 2 ^ 16 \<and>
   encode_movz_x8 99 = Inr [0x68, 0x0c, 0x80, 0xd2] \<and>
   unpack_le_I [0x68, 0x0c, 0x80, 0xd2] = Inr 0xD2800C68 \<and>
   is_movz_x8 0xD2800C68 \<and> drop_bit 5 (0xD2800C68 :: int) AND 0xFFFF = 99"
  using encode_movz_x8_is_load [of 99] by (simp add: encode_99)

text \<open>
  C2. A word that passes one of the two break tests and is not in the table prevents the
  correlation (lemma \<open>stop_word_blocks\<close>). But \<open>ret\<close> passes neither: the word
  0xD65F03C0 shifted right by 26 is 0x35, not the 0x6B the script compares with (0x6B is
  the word shifted right by 25). After \<open>mov x8, #99; ret; svc #0\<close> the search walks
  over the \<open>ret\<close> and the trap is patched.
\<close>

theorem ret_not_recognised:
  "patch_buffer [0x68, 0x0c, 0x80, 0xd2, 0xc0, 0x03, 0x5f, 0xd6, 0x01, 0x00, 0x00, 0xd4] =
     Inr \<lparr>data = [0x68, 0x0c, 0x80, 0xd2, 0xc0, 0x03, 0x5f, 0xd6, 0xa0, 0x04, 0x80, 0x92],
          total_patches = 1,
          trace = [\<lparr>trap = 8, anchor = 0, dist = 2, sys_nr = 99,
                    sys_name = ''set_robust_list''\<rparr>]\<rparr> \<and>
   unpack_le_I [0xc0, 0x03, 0x5f, 0xd6] = Inr 0xD65F03C0 \<and>
   \<not> is_branch 0xD65F03C0 \<and> drop_bit 26 (0xD65F03C0 :: int) = 0x35 \<and>
   drop_bit 25 (0xD65F03C0 :: int) = 0x6B"
proof -
  have "patch_buffer [0x68, 0x0c, 0x80, 0xd2, 0xc0, 0x03, 0x5f, 0xd6, 0x01, 0x00, 0x00, 0xd4] =
     Inr \<lparr>data = [0x68, 0x0c, 0x80, 0xd2, 0xc0, 0x03, 0x5f, 0xd6, 0xa0, 0x04, 0x80, 0x92],
          total_patches = 1,
          trace = [\<lparr>trap = 8, anchor = 0, dist = 2, sys_nr = 99,
                    sys_name = ''set_robust_list''\<rparr>]\<rparr>"
    by code_simp
  then show ?thesis by (simp add: is_branch_def)
qed

text \<open>
  C1, as amended. A buffer made of the encoding of \<open>mov x8, #nr\<close> for a table entry,
  then between 1 and 15 filler words (none of them \<open>svc #0\<close>, a load into register 8,
  \<open>b\<close>, \<open>bl\<close> or a word of the return and indirect-branch class), then
  \<open>svc #0\<close>: the scan produces exactly one trace entry, which correlates the trap
  with the anchor at offset 0, and patches the trap.
\<close>

theorem correlation_within_lookback:
  assumes "(nr, name) \<in> set BLOCKED_SYSCALLS" "encode_movz_x8 nr = Inr mov"
    and "1 \<le> length ws" "length ws \<le> 15" "\<forall>w\<in>set ws. filler w"
  shows "patch_buffer (mov @ concat ws @ SVC_0) =
     Inr \<lparr>data = mov @ concat ws @ MOVN_X0_37, total_patches = 1,
          trace = [\<lparr>trap = 4 * (length ws + 1), anchor = 0, dist = length ws + 1,
                    sys_nr = nr, sys_name = name\<rparr>]\<rparr>"
proof -
  from TARGETS_of_table [OF assms(1,2)]
  have "TARGETS mov = Some (nr, name)" "length mov = 4" by simp_all
  then show ?thesis using assms(4,5) by (rule correlation_core)
qed

theorem correlation_within_lookback_witness:
  "(99, ''set_robust_list'') \<in> set BLOCKED_SYSCALLS \<and>
   encode_movz_x8 99 = Inr [0x68, 0x0c, 0x80, 0xd2] \<and>
   filler [0x1f, 0x20, 0x03, 0xd5] \<and> \<not> filler [0xc0, 0x03, 0x5f, 0xd6] \<and>
   patch_buffer [0x68, 0x0c, 0x80, 0xd2, 0x1f, 0x20, 0x03, 0xd5, 0x1f, 0x20, 0x03, 0xd5,
       0x1f, 0x20, 0x03, 0xd5, 0x01, 0x00, 0x00, 0xd4] =
     Inr \<lparr>data = [0x68, 0x0c, 0x80, 0xd2, 0x1f, 0x20, 0x03, 0xd5, 0x1f, 0x20, 0x03, 0xd5,
            0x1f, 0x20, 0x03, 0xd5, 0xa0, 0x04, 0x80, 0x92],
          total_patches = 1,
          trace = [\<lparr>trap = 16, anchor = 0, dist = 4, sys_nr = 99,
                    sys_name = ''set_robust_list''\<rparr>]\<rparr>"
proof -
  have t: "(99, ''set_robust_list'') \<in> set BLOCKED_SYSCALLS"
    by (simp add: BLOCKED_SYSCALLS_def)
  have f: "filler [0x1f, 0x20, 0x03, 0xd5]"
    by (simp add: filler_def SVC_0_def is_movz_x8_def is_branch_def ret_br_class_def)
  have nf: "\<not> filler [0xc0, 0x03, 0x5f, 0xd6]"
    by (simp add: filler_def ret_br_class_def)
  from correlation_within_lookback [OF t encode_99,
      of "[[0x1f, 0x20, 0x03, 0xd5], [0x1f, 0x20, 0x03, 0xd5], [0x1f, 0x20, 0x03, 0xd5]]"] f nf
  show ?thesis by (simp add: t encode_99 SVC_0_def MOVN_X0_37_def)
qed

text \<open>
  C1 as stated fails in three ways. With 16 \<open>nop\<close> words between anchor and trap the
  anchor is 17 instructions back, beyond \<open>LOOKBACK\<close>, and nothing is patched. With
  \<open>svc #0\<close> as the one filler word, which is neither a branch of any class nor a
  load, the scan produces two trace entries. With a second \<open>mov x8, #99\<close> as the one
  filler word, a load of the same immediate, the trap is correlated with that word at
  offset 4 and not with the anchor at offset 0.
\<close>

theorem correlation_counterexample:
  "patch_buffer ([0x68, 0x0c, 0x80, 0xd2] @ concat (replicate 16 [0x1f, 0x20, 0x03, 0xd5])
       @ [0x01, 0x00, 0x00, 0xd4]) =
     Inr \<lparr>data = [0x68, 0x0c, 0x80, 0xd2] @ concat (replicate 16 [0x1f, 0x20, 0x03, 0xd5])
            @ [0x01, 0x00, 0x00, 0xd4],
          total_patches = 0, trace = []\<rparr> \<and>
   unpack_le_I [0x1f, 0x20, 0x03, 0xd5] = Inr 0xD503201F \<and>
   \<not> is_movz_x8 0xD503201F \<and> \<not> is_branch 0xD503201F \<and> \<not> ret_br_class 0xD503201F \<and>
   patch_buffer [0x68, 0x0c, 0x80, 0xd2, 0x01, 0x00, 0x00, 0xd4, 0x01, 0x00, 0x00, 0xd4] =
     Inr \<lparr>data = [0x68, 0x0c, 0x80, 0xd2, 0xa0, 0x04, 0x80, 0x92, 0xa0, 0x04, 0x80, 0x92],
          total_patches = 2,
          trace = [\<lparr>trap = 4, anchor = 0, dist = 1, sys_nr = 99,
                     sys_name = ''set_robust_list''\<rparr>,
                   \<lparr>trap = 8, anchor = 0, dist = 2, sys_nr = 99,
                     sys_name = ''set_robust_list''\<rparr>]\<rparr> \<and>
   unpack_le_I [0x01, 0x00, 0x00, 0xd4] = Inr 0xD4000001 \<and>
   \<not> is_movz_x8 0xD4000001 \<and> \<not> is_branch 0xD4000001 \<and> \<not> ret_br_class 0xD4000001 \<and>
   patch_buffer [0x68, 0x0c, 0x80, 0xd2, 0x68, 0x0c, 0x80, 0xd2, 0x01, 0x00, 0x00, 0xd4] =
     Inr \<lparr>data = [0x68, 0x0c, 0x80, 0xd2, 0x68, 0x0c, 0x80, 0xd2, 0xa0, 0x04, 0x80, 0x92],
          total_patches = 1,
          trace = [\<lparr>trap = 8, anchor = 4, dist = 1, sys_nr = 99,
                     sys_name = ''set_robust_list''\<rparr>]\<rparr>"
proof -
  have a: "patch_buffer ([0x68, 0x0c, 0x80, 0xd2] @ concat (replicate 16 [0x1f, 0x20, 0x03, 0xd5])
       @ [0x01, 0x00, 0x00, 0xd4]) =
     Inr \<lparr>data = [0x68, 0x0c, 0x80, 0xd2] @ concat (replicate 16 [0x1f, 0x20, 0x03, 0xd5])
            @ [0x01, 0x00, 0x00, 0xd4],
          total_patches = 0, trace = []\<rparr>"
    by code_simp
  have b: "patch_buffer [0x68, 0x0c, 0x80, 0xd2, 0x01, 0x00, 0x00, 0xd4, 0x01, 0x00, 0x00, 0xd4] =
     Inr \<lparr>data = [0x68, 0x0c, 0x80, 0xd2, 0xa0, 0x04, 0x80, 0x92, 0xa0, 0x04, 0x80, 0x92],
          total_patches = 2,
          trace = [\<lparr>trap = 4, anchor = 0, dist = 1, sys_nr = 99,
                     sys_name = ''set_robust_list''\<rparr>,
                   \<lparr>trap = 8, anchor = 0, dist = 2, sys_nr = 99,
                     sys_name = ''set_robust_list''\<rparr>]\<rparr>"
    by code_simp
  have c: "unpack_le_I [0x1f, 0x20, 0x03, 0xd5] = Inr 0xD503201F"
    "\<not> is_movz_x8 0xD503201F" "\<not> is_branch 0xD503201F" "\<not> ret_br_class 0xD503201F"
    "unpack_le_I [0x01, 0x00, 0x00, 0xd4] = Inr 0xD4000001"
    "\<not> is_movz_x8 0xD4000001" "\<not> is_branch 0xD4000001" "\<not> ret_br_class 0xD4000001"
    by (simp_all add: is_movz_x8_def is_branch_def ret_br_class_def)
  have d: "patch_buffer [0x68, 0x0c, 0x80, 0xd2, 0x68, 0x0c, 0x80, 0xd2, 0x01, 0x00, 0x00, 0xd4] =
     Inr \<lparr>data = [0x68, 0x0c, 0x80, 0xd2, 0x68, 0x0c, 0x80, 0xd2, 0xa0, 0x04, 0x80, 0x92],
          total_patches = 1,
          trace = [\<lparr>trap = 8, anchor = 4, dist = 1, sys_nr = 99,
                     sys_name = ''set_robust_list''\<rparr>]\<rparr>"
    by code_simp
  from a b c d show ?thesis by (intro conjI)
qed

section \<open>The search of \<open>count\<close> and \<open>replace\<close>\<close>

lemma occs_short: "length dat < length old \<Longrightarrow> occs dat old = []"
  by (subst occs.simps) simp

lemma occs_match:
  "old \<noteq> [] \<Longrightarrow> take (length old) dat = old
     \<Longrightarrow> occs dat old = 0 # map (\<lambda>p. length old + p) (occs (drop (length old) dat) old)"
  by (subst occs.simps) (metis length_take min.absorb_iff2 not_less)

lemma occs_nomatch:
  "take (length old) (x # xs) \<noteq> old \<Longrightarrow> occs (x # xs) old = map Suc (occs xs old)"
  by (subst occs.simps) (auto simp: occs_short)

lemma replace_short: "old \<noteq> [] \<Longrightarrow> length dat < length old \<Longrightarrow> bytes_replace dat old new = dat"
  by (subst bytes_replace.simps) simp

lemma replace_match:
  "old \<noteq> [] \<Longrightarrow> take (length old) dat = old
     \<Longrightarrow> bytes_replace dat old new = new @ bytes_replace (drop (length old) dat) old new"
  by (subst bytes_replace.simps) (metis length_take min.absorb_iff2 not_less)

lemma replace_nomatch:
  "old \<noteq> [] \<Longrightarrow> take (length old) (x # xs) \<noteq> old
     \<Longrightarrow> bytes_replace (x # xs) old new = x # bytes_replace xs old new"
  by (subst bytes_replace.simps) (auto simp: replace_short)

lemma count_short: "old \<noteq> [] \<Longrightarrow> length dat < length old \<Longrightarrow> bytes_count dat old = 0"
  by (subst bytes_count.simps) simp

lemma count_match:
  "old \<noteq> [] \<Longrightarrow> take (length old) dat = old
     \<Longrightarrow> bytes_count dat old = 1 + bytes_count (drop (length old) dat) old"
  by (subst bytes_count.simps) (metis length_take min.absorb_iff2 not_less)

lemma count_nomatch:
  "old \<noteq> [] \<Longrightarrow> take (length old) (x # xs) \<noteq> old
     \<Longrightarrow> bytes_count (x # xs) old = bytes_count xs old"
  by (subst bytes_count.simps) (auto simp: count_short)


lemma search_induct [consumes 1, case_names short match nomatch]:
  assumes ne: "old \<noteq> []"
    and short: "\<And>dat. length dat < length old \<Longrightarrow> P dat"
    and match: "\<And>dat. take (length old) dat = old \<Longrightarrow> P (drop (length old) dat) \<Longrightarrow> P dat"
    and nomatch: "\<And>x xs. length old \<le> length (x # xs) \<Longrightarrow> take (length old) (x # xs) \<noteq> old
                    \<Longrightarrow> P xs \<Longrightarrow> P (x # xs)"
  shows "P (dat :: buffer)"
proof (induction dat rule: length_induct)
  case (1 dat)
  show ?case
  proof (cases "length dat < length old")
    case True
    then show ?thesis by (rule short)
  next
    case False
    with ne have pos: "dat \<noteq> []" by auto
    show ?thesis
    proof (cases "take (length old) dat = old")
      case True
      from ne False have "length (drop (length old) dat) < length dat" by (cases old) auto
      with 1 have "P (drop (length old) dat)" by blast
      with True show ?thesis by (rule match)
    next
      case ntake: False
      from pos obtain x xs where dat: "dat = x # xs" by (cases dat) auto
      with 1 have "P xs" by simp
      with False ntake show ?thesis unfolding dat by (intro nomatch) simp_all
    qed
  qed
qed

lemma match_len: "take (length old) dat = old \<Longrightarrow> length old \<le> length (dat :: buffer)"
  by (metis length_take min.absorb_iff2 nat_le_linear)

lemma length_replace:
  assumes ne: "old \<noteq> []" and eq: "length new = length old"
  shows "length (bytes_replace dat old new) = length dat"
  using ne
proof (induction dat rule: search_induct)
  case (short dat)
  with ne show ?case by (simp add: replace_short)
next
  case (match dat)
  with ne eq match_len [OF match(1)] show ?case by (simp add: replace_match)
next
  case (nomatch x xs)
  with ne show ?case by (simp add: replace_nomatch)
qed

lemma length_occs:
  assumes ne: "old \<noteq> []"
  shows "length (occs dat old) = bytes_count dat old"
  using ne
proof (induction dat rule: search_induct)
  case (short dat)
  with ne show ?case by (simp add: occs_short count_short)
next
  case (match dat)
  with ne show ?case by (simp add: occs_match count_match)
next
  case (nomatch x xs)
  with ne show ?case by (simp add: occs_nomatch count_nomatch)
qed

lemma occs_apart:
  assumes ne: "old \<noteq> []"
  shows "sorted_wrt (\<lambda>p q. p + length old \<le> q) (occs dat old)"
  using ne
proof (induction dat rule: search_induct)
  case (short dat)
  then show ?case by (simp add: occs_short)
next
  case (match dat)
  with ne show ?case by (simp add: occs_match sorted_wrt_map)
next
  case (nomatch x xs)
  then show ?case by (simp add: occs_nomatch sorted_wrt_map)
qed

lemma occs_replaced:
  assumes ne: "old \<noteq> []" and eq: "length new = length old"
  shows "\<forall>p\<in>set (occs dat old). occurs_at dat old p \<and>
           take (length old) (drop p (bytes_replace dat old new)) = new"
  using ne
proof (induction dat rule: search_induct)
  case (short dat)
  then show ?case by (simp add: occs_short)
next
  case (match dat)
  then show ?case
    using ne eq by (auto simp: occs_match replace_match occurs_at_def add.commute)
next
  case (nomatch x xs)
  then show ?case
    using ne eq by (auto simp: occs_nomatch replace_nomatch occurs_at_def)
qed

lemma occurs_at_len: "occurs_at dat old q \<Longrightarrow> old \<noteq> [] \<Longrightarrow> q + length old \<le> length dat"
proof -
  assume "occurs_at dat old q" and ne: "old \<noteq> []"
  then have "length (take (length old) (drop q dat)) = length old"
    by (simp add: occurs_at_def)
  then have "min (length old) (length dat - q) = length old" by simp
  with ne show ?thesis by (cases old) auto
qed

lemma occs_cover:
  assumes ne: "old \<noteq> []"
  shows "\<forall>q. occurs_at dat old q \<longrightarrow> (\<exists>p\<in>set (occs dat old). p \<le> q \<and> q < p + length old)"
  using ne
proof (induction dat rule: search_induct)
  case (short dat)
  show ?case
  proof (intro allI impI)
    fix q assume "occurs_at dat old q"
    from occurs_at_len [OF this ne] short
    show "\<exists>p\<in>set (occs dat old). p \<le> q \<and> q < p + length old"
      by simp
  qed
next
  case (match dat)
  show ?case
  proof (intro allI impI)
    fix q assume q: "occurs_at dat old q"
    show "\<exists>p\<in>set (occs dat old). p \<le> q \<and> q < p + length old"
    proof (cases "q < length old")
      case True
      with match(1) ne show ?thesis by (simp add: occs_match)
    next
      case False
      with q have "occurs_at (drop (length old) dat) old (q - length old)"
        by (simp add: occurs_at_def)
      with match(2) obtain p where "p \<in> set (occs (drop (length old) dat) old)"
        "p \<le> q - length old" "q - length old < p + length old"
        by blast
      then have p: "p \<in> set (occs (drop (length old) dat) old)"
        "length old + p \<le> q" "q < length old + p + length old"
        using False by simp_all
      from p(1) match(1) ne have "length old + p \<in> set (occs dat old)"
        by (simp add: occs_match)
      with p(2,3) show ?thesis by blast
    qed
  qed
next
  case (nomatch x xs)
  show ?case
  proof (intro allI impI)
    fix q assume q: "occurs_at (x # xs) old q"
    show "\<exists>p\<in>set (occs (x # xs) old). p \<le> q \<and> q < p + length old"
    proof (cases q)
      case 0
      with q nomatch(2) show ?thesis by (simp add: occurs_at_def)
    next
      case (Suc r)
      with q have "occurs_at xs old r" by (simp add: occurs_at_def)
      with nomatch(3) obtain p where "p \<in> set (occs xs old)" "p \<le> r" "r < p + length old"
        by blast
      then have p: "p \<in> set (occs xs old)" "Suc p \<le> q" "q < Suc p + length old"
        using Suc by simp_all
      from p(1) nomatch(2) have "Suc p \<in> set (occs (x # xs) old)"
        by (simp add: occs_nomatch)
      with p(2,3) show ?thesis by blast
    qed
  qed
qed
lemma replace_frame:
  assumes ne: "old \<noteq> []" and eq: "length new = length old"
  shows "\<forall>i<length dat. (\<forall>p\<in>set (occs dat old). i < p \<or> p + length old \<le> i) \<longrightarrow>
           bytes_replace dat old new ! i = dat ! i"
  using ne
proof (induction dat rule: search_induct)
  case (short dat)
  with ne show ?case by (simp add: replace_short)
next
  case (match dat)
  let ?L = "length old" and ?rest = "drop (length old) dat"
  have len: "?L \<le> length dat"
    using match(1) by (rule match_len)
  have occ_eq: "occs dat old = 0 # map (\<lambda>p. ?L + p) (occs ?rest old)"
    using ne match(1) by (rule occs_match)
  have rep_eq: "bytes_replace dat old new = new @ bytes_replace ?rest old new"
    using ne match(1) by (rule replace_match)
  show ?case
  proof (intro allI impI)
    fix i assume i: "i < length dat"
      and out: "\<forall>p\<in>set (occs dat old). i < p \<or> p + ?L \<le> i"
    from out have ge: "?L \<le> i" unfolding occ_eq by simp
    have out': "\<forall>p\<in>set (occs ?rest old). i - ?L < p \<or> p + ?L \<le> i - ?L"
    proof
      fix p assume "p \<in> set (occs ?rest old)"
      with out have "i < ?L + p \<or> ?L + p + ?L \<le> i" unfolding occ_eq by simp
      with ge show "i - ?L < p \<or> p + ?L \<le> i - ?L" by linarith
    qed
    from i ge have "i - ?L < length ?rest" by simp
    with match(2) out' have "bytes_replace ?rest old new ! (i - ?L) = ?rest ! (i - ?L)"
      by blast
    moreover have "bytes_replace dat old new ! i = bytes_replace ?rest old new ! (i - ?L)"
      unfolding rep_eq using ge eq by (simp add: nth_append)
    moreover have "?rest ! (i - ?L) = dat ! i"
      using ge len by simp
    ultimately show "bytes_replace dat old new ! i = dat ! i" by simp
  qed
next
  case (nomatch x xs)
  have occ_eq: "occs (x # xs) old = map Suc (occs xs old)"
    using nomatch(2) by (rule occs_nomatch)
  have rep_eq: "bytes_replace (x # xs) old new = x # bytes_replace xs old new"
    using ne nomatch(2) by (rule replace_nomatch)
  show ?case
  proof (intro allI impI)
    fix i assume i: "i < length (x # xs)"
      and out: "\<forall>p\<in>set (occs (x # xs) old). i < p \<or> p + length old \<le> i"
    show "bytes_replace (x # xs) old new ! i = (x # xs) ! i"
    proof (cases i)
      case 0
      then show ?thesis unfolding rep_eq by simp
    next
      case (Suc j)
      have "\<forall>p\<in>set (occs xs old). j < p \<or> p + length old \<le> j"
      proof
        fix p assume "p \<in> set (occs xs old)"
        with out have "i < Suc p \<or> Suc p + length old \<le> i" unfolding occ_eq by simp
        with Suc show "j < p \<or> p + length old \<le> j" by simp
      qed
      moreover from i Suc have "j < length xs" by simp
      ultimately have "bytes_replace xs old new ! j = xs ! j"
        using nomatch(3) by blast
      with Suc show ?thesis unfolding rep_eq by simp
    qed
  qed
qed

lemma orig_neq: "filepath @ ''.orig'' \<noteq> filepath"
  by simp

lemma patch_file_with_frame:
  "p \<noteq> filepath \<Longrightarrow>
     fst (patch_file_with old1 new1 name1 old2 new2 name2 files filepath) p = files p"
  by (simp add: patch_file_with_def split: option.splits sum.splits)

section \<open>Properties of the path patcher and of the backup\<close>

text \<open>
  C9, as amended. For a non-empty \<open>old\<close> and a \<open>new\<close> that is no longer, both of them
  byte strings that decode unless \<open>old\<close> does not occur at all, \<open>patch_binary\<close>
  returns a buffer of the length of the input. The positions \<open>occs dat old\<close> are
  exact occurrences of \<open>old\<close>, do not overlap, and every occurrence of \<open>old\<close> in
  the input starts inside one of them; at
  each of them the output holds \<open>new\<close> padded with null bytes to the length of
  \<open>old\<close>, and every byte outside them is the byte of the input.
\<close>

theorem replace_fixed_width:
  assumes "old \<noteq> []" "length new \<le> length old"
    and "bytes_count dat old = 0 \<or> decodes old \<and> decodes new"
  shows "\<exists>out. vortek_patch_binary dat old new name = Inr out \<and> length out = length dat \<and>
     length (occs dat old) = bytes_count dat old \<and>
     sorted_wrt (\<lambda>p q. p + length old \<le> q) (occs dat old) \<and>
     (\<forall>p\<in>set (occs dat old). occurs_at dat old p \<and>
        take (length old) (drop p out) = new @ replicate (length old - length new) 0) \<and>
     (\<forall>q. occurs_at dat old q \<longrightarrow> (\<exists>p\<in>set (occs dat old). p \<le> q \<and> q < p + length old)) \<and>
     (\<forall>i<length dat. (\<forall>p\<in>set (occs dat old). i < p \<or> p + length old \<le> i) \<longrightarrow>
        out ! i = dat ! i)"
proof -
  let ?padded = "new @ replicate (length old - length new) 0"
  have eq: "length ?padded = length old" using assms(2) by simp
  note ne = assms(1)
  have cnt: "length (occs dat old) = bytes_count dat old" using ne by (rule length_occs)
  have apart: "sorted_wrt (\<lambda>p q. p + length old \<le> q) (occs dat old)" using ne by (rule occs_apart)
  have cover: "\<forall>q. occurs_at dat old q \<longrightarrow> (\<exists>p\<in>set (occs dat old). p \<le> q \<and> q < p + length old)"
    using ne by (rule occs_cover)
  show ?thesis
  proof (cases "bytes_count dat old = 0")
    case True
    then have "occs dat old = []" using cnt by simp
    moreover from True have "vortek_patch_binary dat old new name = Inr dat"
      by (simp add: vortek_patch_binary_def)
    ultimately show ?thesis using cnt cover by simp
  next
    case False
    let ?out = "bytes_replace dat old ?padded"
    from False assms have run: "vortek_patch_binary dat old new name = Inr ?out"
      by (simp add: vortek_patch_binary_def Let_def)
    have len: "length ?out = length dat" using ne eq by (rule length_replace)
    have repl: "\<forall>p\<in>set (occs dat old). occurs_at dat old p \<and>
        take (length old) (drop p ?out) = ?padded"
      using ne eq by (rule occs_replaced)
    have frame: "\<forall>i<length dat. (\<forall>p\<in>set (occs dat old). i < p \<or> p + length old \<le> i) \<longrightarrow>
        ?out ! i = dat ! i"
      using ne eq by (rule replace_frame)
    from run len cnt apart repl cover frame show ?thesis by blast
  qed
qed

theorem replace_fixed_width_witness:
  "[1, 2, 1] \<noteq> ([] :: buffer) \<and> length ([7] :: buffer) \<le> length ([1, 2, 1] :: buffer) \<and>
   decodes [1, 2, 1] \<and> decodes [7] \<and>
   vortek_patch_binary [1, 2, 1, 2, 1, 9, 1, 2, 1] [1, 2, 1] [7] ''x''
     = Inr [7, 0, 0, 2, 1, 9, 7, 0, 0] \<and>
   occs [1, 2, 1, 2, 1, 9, 1, 2, 1] [1, 2, 1] = [0, 6]"
proof -
  have d: "decodes [1, 2, 1]" "decodes [7]" by simp_all
  have run: "vortek_patch_binary [1, 2, 1, 2, 1, 9, 1, 2, 1] [1, 2, 1] [7] ''x''
     = Inr [7, 0, 0, 2, 1, 9, 7, 0, 0]"
    by code_simp
  have o: "occs [1, 2, 1, 2, 1, 9, 1, 2, 1] [1, 2, 1] = [0, 6]"
    by code_simp
  from replace_fixed_width [of "[1, 2, 1]" "[7]" "[1, 2, 1, 2, 1, 9, 1, 2, 1]" "''x''"] d run o
  show ?thesis by simp
qed

text \<open>
  C9 as stated fails for a path that does not decode: the progress message decodes
  \<open>old\<close> and \<open>new\<close>, so with the single byte 0xFF as \<open>old\<close> the call raises
  after the replacement and returns no buffer.
\<close>

theorem replace_undecodable_counterexample:
  "vortek_patch_binary [0xff, 0x2f] [0xff] [] ''RUNPATH'' = Inl UnicodeDecodeError \<and>
   [0xff] \<noteq> ([] :: buffer) \<and> length ([] :: buffer) \<le> length ([0xff] :: buffer)"
proof -
  have "vortek_patch_binary [0xff, 0x2f] [0xff] [] ''RUNPATH'' = Inl UnicodeDecodeError"
    by code_simp
  then show ?thesis by simp
qed

text \<open>
  C3, as amended. Let \<open>new\<close> be longer than \<open>old\<close>. When \<open>old\<close> occurs in the
  buffer, \<open>patch_binary\<close> exits with status 1, and \<open>patch_file\<close>, whichever of its
  two replacements that is, leaves the store as it was. When \<open>old\<close> does not occur,
  \<open>patch_binary\<close> returns the buffer as it is, and \<open>patch_file\<close> goes on to its
  second replacement.
\<close>

theorem longer_replacement_exits:
  assumes "length old < length new"
  shows "(bytes_count dat old \<noteq> 0 \<longrightarrow>
       vortek_patch_binary dat old new name = Inl (SystemExit 1) \<and>
       (files filepath = Some dat \<longrightarrow>
          patch_file_with old new name old2 new2 name2 files filepath
            = (files, Inl (SystemExit 1))) \<and>
       (\<forall>dat0 old1 new1 name1.
          files filepath = Some dat0 \<and> vortek_patch_binary dat0 old1 new1 name1 = Inr dat \<longrightarrow>
          patch_file_with old1 new1 name1 old new name files filepath
            = (files, Inl (SystemExit 1)))) \<and>
     (bytes_count dat old = 0 \<longrightarrow>
       vortek_patch_binary dat old new name = Inr dat \<and>
       (files filepath = Some dat \<longrightarrow>
          patch_file_with old new name old2 new2 name2 files filepath
            = (case vortek_patch_binary dat old2 new2 name2 of
                 Inl e \<Rightarrow> (files, Inl e)
               | Inr dat2 \<Rightarrow> (files(filepath \<mapsto> dat2), Inr Unity))))"
proof (intro conjI impI)
  assume c: "bytes_count dat old \<noteq> 0"
  with assms show exit: "vortek_patch_binary dat old new name = Inl (SystemExit 1)"
    by (simp add: vortek_patch_binary_def)
  then show "\<forall>dat0 old1 new1 name1.
          files filepath = Some dat0 \<and> vortek_patch_binary dat0 old1 new1 name1 = Inr dat \<longrightarrow>
          patch_file_with old1 new1 name1 old new name files filepath
            = (files, Inl (SystemExit 1))"
    by (simp add: patch_file_with_def)
  assume "files filepath = Some dat"
  with exit show "patch_file_with old new name old2 new2 name2 files filepath
            = (files, Inl (SystemExit 1))"
    by (simp add: patch_file_with_def)
next
  assume c: "bytes_count dat old = 0"
  then show ret: "vortek_patch_binary dat old new name = Inr dat"
    by (simp add: vortek_patch_binary_def)
  assume "files filepath = Some dat"
  with ret show "patch_file_with old new name old2 new2 name2 files filepath
            = (case vortek_patch_binary dat old2 new2 name2 of
                 Inl e \<Rightarrow> (files, Inl e)
               | Inr dat2 \<Rightarrow> (files(filepath \<mapsto> dat2), Inr Unity))"
    by (simp add: patch_file_with_def)
qed

theorem longer_replacement_exits_witness:
  "length ([1] :: buffer) < length ([1, 2] :: buffer) \<and>
   bytes_count [5, 1] [1] \<noteq> 0 \<and>
   vortek_patch_binary [5, 1] [1] [1, 2] ''Socket path'' = Inl (SystemExit 1) \<and>
   patch_file_with [1] [1, 2] ''Socket path'' [5] [6] ''RUNPATH'' [''lib.so'' \<mapsto> [5, 1]] ''lib.so''
     = ([''lib.so'' \<mapsto> [5, 1]], Inl (SystemExit 1)) \<and>
   bytes_count [5, 7] [1] = 0 \<and>
   vortek_patch_binary [5, 7] [1] [1, 2] ''Socket path'' = Inr [5, 7]"
proof -
  have c: "bytes_count [5, 1] [1] \<noteq> 0" by code_simp
  have z: "bytes_count [5, 7] [1] = 0" by code_simp
  have l: "length ([1] :: buffer) < length ([1, 2] :: buffer)" by simp
  from longer_replacement_exits [OF l, of "[5, 1]" "''Socket path''"
      "[''lib.so'' \<mapsto> [5, 1]]" "''lib.so''" "[5]" "[6]" "''RUNPATH''"]
    longer_replacement_exits [OF l, of "[5, 7]" "''Socket path''"
      "[''lib.so'' \<mapsto> [5, 7]]" "''lib.so''" "[5]" "[6]" "''RUNPATH''"] c z
  show ?thesis by simp
qed

text \<open>
  C3 as stated fails when \<open>old\<close> does not occur: the search is made before the
  lengths are compared, the buffer is returned as it is, and \<open>patch_file\<close> goes on
  to its second replacement and writes the file.
\<close>

theorem longer_replacement_counterexample:
  "length ([1] :: buffer) < length ([1, 2] :: buffer) \<and>
   vortek_patch_binary [5] [1] [1, 2] ''Socket path'' = Inr [5] \<and>
   snd (patch_file_with [1] [1, 2] ''Socket path'' [5] [6] ''RUNPATH'' [''lib.so'' \<mapsto> [5]] ''lib.so'')
     = Inr () \<and>
   fst (patch_file_with [1] [1, 2] ''Socket path'' [5] [6] ''RUNPATH'' [''lib.so'' \<mapsto> [5]] ''lib.so'')
     ''lib.so'' = Some [6]"
proof -
  have a: "vortek_patch_binary [5] [1] [1, 2] ''Socket path'' = Inr [5]" by code_simp
  have b: "vortek_patch_binary [5] [5] [6] ''RUNPATH'' = Inr [6]" by code_simp
  from a b show ?thesis by (simp add: patch_file_with_def)
qed

text \<open>
  C4, as amended. When \<open>patch_binary\<close> of the instruction patcher returns \<open>True\<close>,
  the path with \<open>.orig\<close> appended holds what it held before, or the contents the file
  had before the patch when nothing was there; the file holds the patched buffer and no
  other path has changed. When it returns anything else the store is unchanged. The
  path patcher's \<open>patch_file\<close> changes no path but the one it is given: it makes no
  backup.
\<close>

theorem backup_made_once:
  "(patch_binary files filepath = (files', Inr True) \<longrightarrow>
      files' (filepath @ ''.orig'') =
        (case files (filepath @ ''.orig'') of None \<Rightarrow> files filepath | Some kept \<Rightarrow> Some kept) \<and>
      files' (filepath @ ''.orig'') \<noteq> None \<and>
      (\<exists>original st. files filepath = Some original \<and> patch_buffer original = Inr st \<and>
         total_patches st \<noteq> 0 \<and> files' filepath = Some (data st)) \<and>
      (\<forall>p. p \<noteq> filepath \<and> p \<noteq> filepath @ ''.orig'' \<longrightarrow> files' p = files p)) \<and>
   (\<forall>r. patch_binary files filepath = (files', r) \<and> r \<noteq> Inr True \<longrightarrow> files' = files) \<and>
   (\<forall>p. p \<noteq> filepath \<longrightarrow> fst (patch_file files filepath) p = files p)"
proof (intro conjI impI allI)
  assume run: "patch_binary files filepath = (files', Inr True)"
  then obtain original st where o: "files filepath = Some original"
    and st: "patch_buffer original = Inr st" and n: "total_patches st \<noteq> 0"
    and f: "files' = (if files (filepath @ ''.orig'') \<noteq> None then files
                      else files(filepath @ ''.orig'' \<mapsto> original))(filepath \<mapsto> data st)"
    by (auto simp: patch_binary_def Let_def split: option.splits sum.splits if_splits)
  from f o show "files' (filepath @ ''.orig'') =
        (case files (filepath @ ''.orig'') of None \<Rightarrow> files filepath | Some kept \<Rightarrow> Some kept)"
    by (auto split: option.splits)
  from f o show "files' (filepath @ ''.orig'') \<noteq> None"
    by auto
  from f o st n show "\<exists>original st. files filepath = Some original \<and> patch_buffer original = Inr st \<and>
         total_patches st \<noteq> 0 \<and> files' filepath = Some (data st)"
    by auto
  fix p assume "p \<noteq> filepath \<and> p \<noteq> filepath @ ''.orig''"
  with f show "files' p = files p" by auto
next
  fix r assume "patch_binary files filepath = (files', r) \<and> r \<noteq> Inr True"
  then show "files' = files"
    by (auto simp: patch_binary_def Let_def split: option.splits sum.splits if_splits)
next
  fix p assume "p \<noteq> filepath"
  then show "fst (patch_file files filepath) p = files p"
    unfolding patch_file_def by (rule patch_file_with_frame)
qed

theorem backup_made_once_witness:
  "patch_binary [''libc.so.6'' \<mapsto> [0x68, 0x0c, 0x80, 0xd2, 0x01, 0x00, 0x00, 0xd4]] ''libc.so.6''
     = ([''libc.so.6.orig'' \<mapsto> [0x68, 0x0c, 0x80, 0xd2, 0x01, 0x00, 0x00, 0xd4],
         ''libc.so.6'' \<mapsto> [0x68, 0x0c, 0x80, 0xd2, 0xa0, 0x04, 0x80, 0x92]], Inr True) \<and>
   [''libc.so.6.orig'' \<mapsto> [0x68, 0x0c, 0x80, 0xd2, 0x01, 0x00, 0x00, 0xd4],
    ''libc.so.6'' \<mapsto> [0x68, 0x0c, 0x80, 0xd2, 0xa0, 0x04, 0x80, 0x92]] ''libc.so.6.orig''
     = Some [0x68, 0x0c, 0x80, 0xd2, 0x01, 0x00, 0x00, 0xd4]"
proof -
  let ?files = "[''libc.so.6'' \<mapsto> [0x68, 0x0c, 0x80, 0xd2, 0x01, 0x00, 0x00, 0xd4]] :: fs"
  let ?files' = "[''libc.so.6.orig'' \<mapsto> [0x68, 0x0c, 0x80, 0xd2, 0x01, 0x00, 0x00, 0xd4],
         ''libc.so.6'' \<mapsto> [0x68, 0x0c, 0x80, 0xd2, 0xa0, 0x04, 0x80, 0x92]] :: fs"
  have ev: "patch_buffer [0x68, 0x0c, 0x80, 0xd2, 0x01, 0x00, 0x00, 0xd4] =
     Inr \<lparr>data = [0x68, 0x0c, 0x80, 0xd2, 0xa0, 0x04, 0x80, 0x92], total_patches = 1,
          trace = [\<lparr>trap = 4, anchor = 0, dist = 1, sys_nr = 99,
                    sys_name = ''set_robust_list''\<rparr>]\<rparr>"
    by code_simp
  have run: "patch_binary ?files ''libc.so.6'' = (?files', Inr True)"
    by (simp add: patch_binary_def ev)
  from backup_made_once [of ?files "''libc.so.6''" ?files'] run
  show ?thesis by simp
qed

text \<open>
  C4 as stated fails for the path patcher: it rewrites a file that holds the old socket
  path and leaves no \<open>.orig\<close> file.
\<close>

theorem backup_missing_counterexample:
  "snd (patch_file [''libvulkan_vortek.so'' \<mapsto> OLD_SOCKET] ''libvulkan_vortek.so'') = Inr () \<and>
   fst (patch_file [''libvulkan_vortek.so'' \<mapsto> OLD_SOCKET] ''libvulkan_vortek.so'')
     ''libvulkan_vortek.so'' = Some (NEW_SOCKET @ replicate 11 0) \<and>
   NEW_SOCKET @ replicate 11 0 \<noteq> OLD_SOCKET \<and>
   fst (patch_file [''libvulkan_vortek.so'' \<mapsto> OLD_SOCKET] ''libvulkan_vortek.so'')
     ''libvulkan_vortek.so.orig'' = None"
proof -
  have a: "vortek_patch_binary OLD_SOCKET OLD_SOCKET NEW_SOCKET ''Socket path''
      = Inr (NEW_SOCKET @ replicate 11 0)"
    by code_simp
  have b: "vortek_patch_binary (NEW_SOCKET @ replicate 11 0) OLD_RUNPATH NEW_RUNPATH ''RUNPATH''
      = Inr (NEW_SOCKET @ replicate 11 0)"
    by code_simp
  have c: "NEW_SOCKET @ replicate 11 0 \<noteq> OLD_SOCKET"
    by code_simp
  from a b c show ?thesis
    by (simp add: patch_file_def patch_file_with_def)
qed

end
